theory Spec2Isabelle
  imports Main "HOL-Library.Word" "HOL-Library.Multiset"
begin

section \<open>The twins scenario generator (package twins, generator.go)\<close>

text \<open>
  A shallow embedding of the scenario generator: \<open>NewGenerator\<close>, \<open>Shuffle\<close>,
  \<open>NextScenario\<close> and the enumeration helpers \<open>genPartitionSizes\<close>,
  \<open>generateTwinPartitionPairs\<close>, \<open>isValidTwinAssignment\<close>, \<open>cartesianProduct\<close> and
  \<open>genPartitionScenarios\<close>. Go's \<open>uint8\<close> and \<open>uint32\<close> are words, so that their
  arithmetic wraps as in the program. A run-time panic and a loop that never exits are
  values of the type \<open>failure\<close>; every function that can panic returns \<open>failure + 'a\<close>.
\<close>

subsection \<open>Data model\<close>

type_synonym u8 = "8 word"
type_synonym u32 = "32 word"

datatype failure =
    IndexOutOfRange  \<comment> \<open>panic: index out of range\<close>
  | NilMapWrite      \<comment> \<open>panic: assignment to entry in nil map\<close>
  | InvalidArgument  \<comment> \<open>panic: invalid argument to Intn\<close>
  | NoReturn         \<comment> \<open>the loop never exits\<close>

text \<open>
  Modelled from the spec: the declarations of \<open>NodeID\<close>, \<open>NodeSet\<close>, \<open>View\<close> and
  \<open>Scenario\<close> are in other files of the package. A NodeId is the pair
  (ReplicaId, NetworkId); \<open>hotstuff.ID\<close> and the network id are \<open>uint32\<close>. A NodeSet is
  a set of NodeIds, a Go map used as a set: \<open>None\<close> is the nil map (length 0, a write
  to it panics), \<open>Some S\<close> a map made with \<open>make\<close>.
\<close>

record NodeID =
  ReplicaID :: u32
  NetworkID :: u32

type_synonym NodeSet = "NodeID set option"

record View =
  Leader :: u32
  PartitionScenario :: "NodeSet list"

record Scenario =
  Nodes :: "NodeID list"
  Views :: "View list"

text \<open>
  The generator. \<open>indices\<close> and \<open>offsets\<close> are Go \<open>int\<close>s that the program only ever
  sets to counts and to results of \<open>Intn\<close>; they are natural numbers here.
\<close>

record Generator =
  allNodes :: "NodeID list"
  rounds :: u8
  partitions :: u8
  indices :: "nat list"
  offsets :: "nat list"
  leadersPartitions :: "View list"

text \<open>\<open>len\<close> of a NodeSet, and \<open>NodeSet.Add\<close>.\<close>

definition lenNodeSet :: "NodeSet \<Rightarrow> nat" where
  "lenNodeSet p = (case p of None \<Rightarrow> 0 | Some S \<Rightarrow> card S)"

definition Add :: "NodeSet \<Rightarrow> NodeID \<Rightarrow> failure + NodeSet" where
  "Add p v = (case p of None \<Rightarrow> Inl NilMapWrite | Some S \<Rightarrow> Inr (Some (insert v S)))"

subsection \<open>genPartitionSizes\<close>

text \<open>
  \<open>genPartitionSizesRecursive i n minSize state sizes\<close> appends to \<open>*sizes\<close>; the model
  returns the vectors it appends, in order. \<open>genPartitionSizesLoop\<close> is its statement
  \<open>if int(i+1) < len(s) { for ; (i == 0 && m >= minSize) || (i != 0 && m > 0); m-- { ... } }\<close>
  from the value \<open>m\<close> on. When the loop condition holds at \<open>m = 0\<close> (then \<open>i = 0\<close> and
  \<open>minSize = 0\<close>), \<open>m--\<close> wraps to 255 and the condition \<open>m >= 0\<close> never fails: the
  loop does not exit. The index \<open>i\<close> is a \<open>uint8\<close> below \<open>len(state)\<close>, which is the
  \<open>uint8\<close> \<open>k\<close> of \<open>genPartitionSizes\<close>, so \<open>i+1\<close> does not wrap and \<open>i\<close> is a natural
  number here.
\<close>

function genPartitionSizesRecursive :: "nat \<Rightarrow> u8 \<Rightarrow> u8 \<Rightarrow> u8 list \<Rightarrow> failure + u8 list list"
  and genPartitionSizesLoop :: "nat \<Rightarrow> u8 \<Rightarrow> u8 \<Rightarrow> u8 list \<Rightarrow> u8 \<Rightarrow> failure + u8 list list"
where
  "genPartitionSizesRecursive i n minSize state =
     (if length state \<le> i then Inl IndexOutOfRange
      else
        let s = state[i := n];
            found = (if i = 0 \<or> n \<le> s ! (i - 1) then [s] else []);
            m = (if 0 < i then min (n - 1) (s ! (i - 1)) else n - 1)
        in case genPartitionSizesLoop i n minSize s m of
             Inl e \<Rightarrow> Inl e
           | Inr r \<Rightarrow> Inr (found @ r))"
| "genPartitionSizesLoop i n minSize s m =
     (if i + 1 < length s \<and> ((i = 0 \<and> minSize \<le> m) \<or> (i \<noteq> 0 \<and> 0 < m)) then
        if m = 0 then Inl NoReturn
        else
          case genPartitionSizesRecursive (i + 1) (n - m) minSize (s[i := m]) of
            Inl e \<Rightarrow> Inl e
          | Inr r1 \<Rightarrow>
             (case genPartitionSizesLoop i n minSize (s[i := m]) (m - 1) of
                Inl e \<Rightarrow> Inl e
              | Inr r2 \<Rightarrow> Inr (r1 @ r2))
      else Inr [])"
  by pat_completeness auto
termination
proof (relation "measures [
    (\<lambda>x. case x of Inl (i, n, ms, st) \<Rightarrow> length st - i | Inr (i, n, ms, s, m) \<Rightarrow> length s - i),
    (\<lambda>x. case x of Inl _ \<Rightarrow> 1 | Inr _ \<Rightarrow> 0),
    (\<lambda>x. case x of Inl _ \<Rightarrow> 0 | Inr (i, n, ms, s, m) \<Rightarrow> unat m)]", goal_cases)
  case 1
  show ?case by simp
next
  case (2 i n minSize state x xa xb)
  then show ?case by simp
next
  case (3 i n minSize s m)
  then show ?case by auto
next
  case (4 i n minSize s m x2)
  then show ?case by (auto simp: unat_minus_one word_neq_0_conv unat_gt_0)
qed

definition genPartitionSizes :: "u8 \<Rightarrow> u8 \<Rightarrow> u8 \<Rightarrow> failure + u8 list list" where
  "genPartitionSizes n k minSize =
     genPartitionSizesRecursive 0 n minSize (replicate (unat k) 0)"

subsection \<open>Twin assignments\<close>

text \<open>
  A \<open>twinAssignment\<close> is a \<open>[2]uint8\<close>, a pair here. In \<open>generateTwinPartitionPairs\<close>
  the counters \<open>i\<close> and \<open>j\<close> stay below \<open>n \<le> 255\<close> until the loops exit at \<open>n\<close>, so
  \<open>i++\<close> and \<open>j++\<close> do not wrap.
\<close>

type_synonym twinAssignment = "u8 \<times> u8"

definition generateTwinPartitionPairs :: "u8 \<Rightarrow> twinAssignment list" where
  "generateTwinPartitionPairs n =
     concat (map (\<lambda>i. map (\<lambda>j. (of_nat i, of_nat j)) [i..<unat n]) [0..<unat n])"

text \<open>The loop of \<open>isValidTwinAssignment\<close> over \<open>twinAssignments\<close>, on the copy \<open>ps\<close>.\<close>

fun isValidLoop :: "twinAssignment list \<Rightarrow> u8 list \<Rightarrow> u8 list \<Rightarrow> bool" where
  "isValidLoop [] partitionSizes ps = True"
| "isValidLoop ((first, second) # rest) partitionSizes ps =
     (if length partitionSizes \<le> unat first \<or> ps ! unat first = 0 then False
      else
        let ps1 = ps[unat first := ps ! unat first - 1]
        in if length partitionSizes \<le> unat second \<or> ps1 ! unat second = 0 then False
           else isValidLoop rest partitionSizes (ps1[unat second := ps1 ! unat second - 1]))"

definition isValidTwinAssignment :: "twinAssignment list \<Rightarrow> u8 list \<Rightarrow> bool" where
  "isValidTwinAssignment twinAssignments partitionSizes =
     isValidLoop twinAssignments partitionSizes partitionSizes"

fun cartesianProduct :: "'a list list \<Rightarrow> 'a list list" where
  "cartesianProduct [] = [[]]"
| "cartesianProduct (input0 # rest) =
     (let r = cartesianProduct rest
      in concat (map (\<lambda>v. map (\<lambda>p. v # p) r) input0))"

subsection \<open>genPartitionScenarios\<close>

text \<open>
  The body of the inner loop of \<open>genPartitionScenarios\<close>, for one size vector and one
  valid twin assignment, in its three steps. \<open>initPartitions\<close> is the loop
  \<open>for k := range sizes[i]\<close> over the slice made by \<open>make([]NodeSet, k)\<close>.
\<close>

fun initPartitions :: "u8 list \<Rightarrow> nat \<Rightarrow> NodeSet list \<Rightarrow> failure + NodeSet list" where
  "initPartitions [] kk ps = Inr ps"
| "initPartitions (sz # rest) kk ps =
     (if 0 < sz then
        if length ps \<le> kk then Inl IndexOutOfRange
        else initPartitions rest (kk + 1) (ps[kk := Some {}])
      else initPartitions rest (kk + 1) ps)"

text \<open>\<open>partitions[t].Add(twins[twin])\<close>\<close>

definition addTwin :: "NodeID list \<Rightarrow> u8 \<Rightarrow> nat \<Rightarrow> NodeSet list \<Rightarrow> failure + NodeSet list" where
  "addTwin twins t twin ps =
     (if length ps \<le> unat t \<or> length twins \<le> twin then Inl IndexOutOfRange
      else case Add (ps ! unat t) (twins ! twin) of
             Inl e \<Rightarrow> Inl e
           | Inr p \<Rightarrow> Inr (ps[unat t := p]))"

fun placeTwins :: "NodeID list \<Rightarrow> twinAssignment list \<Rightarrow> nat \<Rightarrow> NodeSet list \<Rightarrow> failure + NodeSet list" where
  "placeTwins twins [] twin ps = Inr ps"
| "placeTwins twins ((a, b) # rest) twin ps =
     (case addTwin twins a twin ps of
        Inl e \<Rightarrow> Inl e
      | Inr ps1 \<Rightarrow>
         (case addTwin twins b (twin + 1) ps1 of
            Inl e \<Rightarrow> Inl e
          | Inr ps2 \<Rightarrow> placeTwins twins rest (twin + 2) ps2))"

text \<open>
  \<open>for sizes[i][k]-uint8(len(partitions[k])) > 0 { partitions[k].Add(nodes[node]); node++ }\<close>
  for one partition: it returns the partition and the node cursor.
\<close>

function fillPartition :: "NodeID list \<Rightarrow> u8 \<Rightarrow> NodeSet \<Rightarrow> nat \<Rightarrow> failure + (NodeSet \<times> nat)" where
  "fillPartition nodes sizeK p node =
     (if 0 < sizeK - of_nat (lenNodeSet p) then
        if length nodes \<le> node then Inl IndexOutOfRange
        else case Add p (nodes ! node) of
               Inl e \<Rightarrow> Inl e
             | Inr p' \<Rightarrow> fillPartition nodes sizeK p' (node + 1)
      else Inr (p, node))"
  by pat_completeness auto
termination
  by (relation "measure (\<lambda>(nodes, sizeK, p, node). length nodes - node)") auto

function fillNodes :: "NodeID list \<Rightarrow> u8 list \<Rightarrow> NodeSet list \<Rightarrow> nat \<Rightarrow> nat \<Rightarrow> failure + NodeSet list" where
  "fillNodes nodes sz ps kk node =
     (if kk < length ps then
        if length sz \<le> kk then Inl IndexOutOfRange
        else case fillPartition nodes (sz ! kk) (ps ! kk) node of
               Inl e \<Rightarrow> Inl e
             | Inr (p, node') \<Rightarrow> fillNodes nodes sz (ps[kk := p]) (kk + 1) node'
      else Inr ps)"
  by pat_completeness auto
termination
  by (relation "measure (\<lambda>(nodes, sz, ps, kk, node). length ps - kk)") auto

definition buildPartitions :: "NodeID list \<Rightarrow> NodeID list \<Rightarrow> u8 \<Rightarrow> u8 list \<Rightarrow> twinAssignment list \<Rightarrow> failure + NodeSet list" where
  "buildPartitions twins nodes k sz ta =
     (case initPartitions sz 0 (replicate (unat k) None) of
        Inl e \<Rightarrow> Inl e
      | Inr ps0 \<Rightarrow>
         (case placeTwins twins ta 0 ps0 of
            Inl e \<Rightarrow> Inl e
          | Inr ps1 \<Rightarrow> fillNodes nodes sz ps1 0 0))"

text \<open>The loop \<open>for j := range twinAssignments\<close>, and the loop \<open>for i := range sizes\<close>.\<close>

fun scenariosOfSize :: "NodeID list \<Rightarrow> NodeID list \<Rightarrow> u8 \<Rightarrow> u8 list \<Rightarrow> twinAssignment list list \<Rightarrow> failure + NodeSet list list" where
  "scenariosOfSize twins nodes k sz [] = Inr []"
| "scenariosOfSize twins nodes k sz (ta # tas) =
     (if \<not> isValidTwinAssignment ta sz then scenariosOfSize twins nodes k sz tas
      else case buildPartitions twins nodes k sz ta of
             Inl e \<Rightarrow> Inl e
           | Inr p \<Rightarrow>
              (case scenariosOfSize twins nodes k sz tas of
                 Inl e \<Rightarrow> Inl e
               | Inr r \<Rightarrow> Inr (p # r)))"

fun scenariosOfSizes :: "NodeID list \<Rightarrow> NodeID list \<Rightarrow> u8 \<Rightarrow> u8 list list \<Rightarrow> twinAssignment list list \<Rightarrow> failure + NodeSet list list" where
  "scenariosOfSizes twins nodes k [] tas = Inr []"
| "scenariosOfSizes twins nodes k (sz # sizes) tas =
     (case scenariosOfSize twins nodes k sz tas of
        Inl e \<Rightarrow> Inl e
      | Inr r1 \<Rightarrow>
         (case scenariosOfSizes twins nodes k sizes tas of
            Inl e \<Rightarrow> Inl e
          | Inr r2 \<Rightarrow> Inr (r1 @ r2)))"

text \<open>
  The twin assignments of \<open>genPartitionScenarios\<close>: the list stays \<open>nil\<close> when there is
  no pair of twins.
\<close>

definition twinAssignmentsOf :: "NodeID list \<Rightarrow> u8 \<Rightarrow> twinAssignment list list" where
  "twinAssignmentsOf twins k =
     (if 0 < length twins div 2
      then cartesianProduct (replicate (length twins div 2) (generateTwinPartitionPairs k))
      else [])"

definition genPartitionScenarios :: "NodeID list \<Rightarrow> NodeID list \<Rightarrow> u8 \<Rightarrow> u8 \<Rightarrow> failure + NodeSet list list" where
  "genPartitionScenarios twins nodes k minSize =
     (let n = (of_nat (length twins + length nodes) :: u8);
          twinAssignments = twinAssignmentsOf twins k
      in case genPartitionSizes n k minSize of
           Inl e \<Rightarrow> Inl e
         | Inr sizes \<Rightarrow> scenariosOfSizes twins nodes k sizes twinAssignments)"

subsection \<open>NewGenerator\<close>

text \<open>
  The loop \<open>for i := 0; i < int(replicas); i++\<close> that assigns the ids; the first
  argument counts the iterations left. It returns \<open>twins\<close>, \<open>nodes\<close> and \<open>replicaIDs\<close>.
\<close>

fun assignIDs :: "nat \<Rightarrow> u32 \<Rightarrow> u32 \<Rightarrow> u8 \<Rightarrow> NodeID list \<Rightarrow> NodeID list \<Rightarrow> u32 list
    \<Rightarrow> NodeID list \<times> NodeID list \<times> u32 list" where
  "assignIDs 0 replicaID networkID remainingTwins twins nodes replicaIDs =
     (twins, nodes, replicaIDs)"
| "assignIDs (Suc c) replicaID networkID remainingTwins twins nodes replicaIDs =
     (if 0 < remainingTwins then
        assignIDs c (replicaID + 1) (networkID + 1 + 1) (remainingTwins - 1)
          (twins @ [\<lparr>ReplicaID = replicaID, NetworkID = networkID\<rparr>,
                    \<lparr>ReplicaID = replicaID, NetworkID = networkID + 1\<rparr>])
          nodes (replicaIDs @ [replicaID])
      else
        assignIDs c (replicaID + 1) (networkID + 1) remainingTwins
          twins (nodes @ [\<lparr>ReplicaID = replicaID, NetworkID = networkID\<rparr>])
          (replicaIDs @ [replicaID]))"

definition NewGenerator :: "u8 \<Rightarrow> u8 \<Rightarrow> u8 \<Rightarrow> u8 \<Rightarrow> failure + Generator" where
  "NewGenerator replicas numTwins partitions' rounds' =
     (case assignIDs (unat replicas) 1 1 numTwins [] [] [] of
        (twins, nodes, replicaIDs) \<Rightarrow>
          (case genPartitionScenarios twins nodes partitions' 1 of
             Inl e \<Rightarrow> Inl e
           | Inr partitionScenarios \<Rightarrow>
               Inr \<lparr>allNodes = twins @ nodes,
                    rounds = rounds',
                    partitions = partitions',
                    indices = replicate (unat rounds') 0,
                    offsets = replicate (unat rounds') 0,
                    leadersPartitions =
                      concat (map (\<lambda>p. map (\<lambda>id. \<lparr>Leader = id, PartitionScenario = p\<rparr>) replicaIDs)
                                partitionScenarios)\<rparr>))"

subsection \<open>NextScenario\<close>

text \<open>
  The first loop, \<open>for i, ii := range g.indices\<close>, fills \<open>p\<close>, which starts as
  \<open>rounds\<close> zero views.
\<close>

definition zeroView :: View where
  "zeroView = \<lparr>Leader = 0, PartitionScenario = []\<rparr>"

definition zeroScenario :: Scenario where
  "zeroScenario = \<lparr>Nodes = [], Views = []\<rparr>"

fun collectViews :: "Generator \<Rightarrow> nat \<Rightarrow> nat list \<Rightarrow> View list \<Rightarrow> failure + View list" where
  "collectViews g i [] p = Inr p"
| "collectViews g i (ii # rest) p =
     (if length (offsets g) \<le> i then Inl IndexOutOfRange
      else
        let index = ii + offsets g ! i;
            index = (if length (leadersPartitions g) \<le> index
                     then index - length (leadersPartitions g) else index)
        in if length (leadersPartitions g) \<le> index \<or> length p \<le> i then Inl IndexOutOfRange
           else collectViews g (i + 1) rest (p[i := leadersPartitions g ! index]))"

text \<open>
  The second loop, \<open>for i := int(g.rounds) - 1; i >= 0; i--\<close>; the third argument is
  \<open>i + 1\<close>. It returns the new \<open>indices\<close> and whether the function goes on to
  \<open>return s, true\<close> (after \<open>break\<close>, or when the loop ends) or has returned
  \<open>s, false\<close>.
\<close>

fun advance :: "nat \<Rightarrow> nat list \<Rightarrow> nat \<Rightarrow> failure + (nat list \<times> bool)" where
  "advance len idx 0 = Inr (idx, True)"
| "advance len idx (Suc i) =
     (if length idx \<le> i then Inl IndexOutOfRange
      else
        let idx1 = idx[i := idx ! i + 1]
        in if idx1 ! i < len then Inr (idx1, True)
           else
             let idx2 = idx1[i := 0]
             in if i \<le> 0 then Inr ([], False)
                else advance len idx2 i)"

definition NextScenario :: "Generator \<Rightarrow> failure + (Scenario \<times> bool \<times> Generator)" where
  "NextScenario g =
     (case collectViews g 0 (indices g) (replicate (unat (rounds g)) zeroView) of
        Inl e \<Rightarrow> Inl e
      | Inr p \<Rightarrow>
         (case advance (length (leadersPartitions g)) (indices g) (unat (rounds g)) of
            Inl e \<Rightarrow> Inl e
          | Inr (idx, ok) \<Rightarrow>
              if ok then Inr (\<lparr>Nodes = allNodes g, Views = p\<rparr>, True, g\<lparr>indices := idx\<rparr>)
              else Inr (zeroScenario, False, g\<lparr>indices := idx\<rparr>)))"

subsection \<open>Shuffle\<close>

text \<open>
  \<open>math/rand\<close> is a library outside the repository, so the random source is a
  parameter: \<open>newSource seed\<close> is the state of \<open>rand.New(rand.NewSource(seed))\<close>,
  \<open>shuffleDraw r n\<close> the draw \<open>j\<close> below \<open>n\<close> that \<open>r.Shuffle\<close> makes for \<open>swap(n - 1, j)\<close>,
  and \<open>intn r n\<close> the result of \<open>r.Intn(n)\<close> for \<open>n > 0\<close>; both return the next state.
  What is proved of \<open>Shuffle\<close> for every source holds for \<open>math/rand\<close>; \<open>mathRand\<close>
  below is the source to run \<open>Shuffle\<close> on.
\<close>

record 'r randLib =
  newSource :: "64 word \<Rightarrow> 'r"
  shuffleDraw :: "'r \<Rightarrow> nat \<Rightarrow> nat \<times> 'r"
  intn :: "'r \<Rightarrow> nat \<Rightarrow> nat \<times> 'r"

text \<open>
  \<open>r.Shuffle(n, swap)\<close> runs \<open>for i := n - 1; i > 0; i-- { j := draw(i + 1); swap(i, j) }\<close>;
  the second argument of \<open>shuffleLoop\<close> is \<open>i\<close>. The swap indexes the slice, so an index
  out of range panics.
\<close>

fun shuffleLoop :: "'r randLib \<Rightarrow> nat \<Rightarrow> 'r \<Rightarrow> 'a list \<Rightarrow> failure + ('a list \<times> 'r)" where
  "shuffleLoop lib 0 r lp = Inr (lp, r)"
| "shuffleLoop lib (Suc i') r lp =
     (case shuffleDraw lib r (Suc i' + 1) of
        (j, r') \<Rightarrow>
          if length lp \<le> Suc i' \<or> length lp \<le> j then Inl IndexOutOfRange
          else shuffleLoop lib i' r' (lp[Suc i' := lp ! j, j := lp ! Suc i']))"

text \<open>\<open>for i := range g.offsets { g.offsets[i] = r.Intn(len(g.leadersPartitions)) }\<close>\<close>

fun drawOffsets :: "'r randLib \<Rightarrow> nat \<Rightarrow> 'r \<Rightarrow> nat list \<Rightarrow> failure + nat list" where
  "drawOffsets lib len r [] = Inr []"
| "drawOffsets lib len r (old # rest) =
     (if len = 0 then Inl InvalidArgument
      else case intn lib r len of
             (v, r') \<Rightarrow>
               (case drawOffsets lib len r' rest of
                  Inl e \<Rightarrow> Inl e
                | Inr vs \<Rightarrow> Inr (v # vs)))"

definition Shuffle :: "'r randLib \<Rightarrow> 64 word \<Rightarrow> Generator \<Rightarrow> failure + Generator" where
  "Shuffle lib seed g =
     (case shuffleLoop lib (length (leadersPartitions g) - 1) (newSource lib seed)
             (leadersPartitions g) of
        Inl e \<Rightarrow> Inl e
      | Inr (lp, r) \<Rightarrow>
         (case drawOffsets lib (length lp) r (offsets g) of
            Inl e \<Rightarrow> Inl e
          | Inr offs \<Rightarrow> Inr (g\<lparr>leadersPartitions := lp, offsets := offs\<rparr>)))"

unbundle bit_operations_syntax

subsection \<open>math/rand\<close>

text \<open>
  The generator of \<open>math/rand\<close> behind \<open>rand.NewSource\<close> is an additive lagged Fibonacci
  generator over a table of 607 words, seeded through a linear congruential generator;
  \<open>Shuffle\<close> sees it only through the values that the source's \<open>Int63\<close> returns, one
  after the other. \<open>NewSource seed\<close> is the beginning of that sequence: the first 128
  values of \<open>rand.NewSource(seed).Int63()\<close> for the seeds 0 and 42, and the first 16 for
  the seed 1. The sequence is given for these seeds only, and only that far: where it
  ends \<open>Int63\<close> reads 0 and the retry loops stop. A shuffle of \<open>n\<close> entries followed by
  \<open>rounds\<close> offsets reads \<open>n - 1 + rounds\<close> values, or more if a draw is retried.
\<close>

definition NewSource :: "64 word \<Rightarrow> int list" where
  "NewSource seed =
     (if seed = 0 then
        [8717895732742165505, 2259404117704393152, 6050128673802995827, 501233450539197794,
         3390393562759376202, 2669985732393126063, 1774932891286980153, 6044372234677422456,
         8274930044578894929, 1543572285742637646, 2661732831099943416, 8325060299420976708,
         7837839688282259259, 2518412263346885298, 5617773211005988520, 2339563716805116249,
         7144924247938981575, 161231572858529631, 7259475919510918339, 7373105480197164748,
         3287288577352441706, 3930927879439176946, 4706154865122290029, 2217592893536642650,
         1929546706668609706, 6392442863481646880, 3706853784096366226, 2627038740284806767,
         6303220950515014660, 4035568504096476779, 959367522974354090, 2914295034816259174,
         1395437218309923052, 6745438398739480977, 2897681629866238117, 3398579248012586914,
         5974317550424871033, 3317123977833389635, 5001958211167890979, 167566062957544642,
         4778690082005258714, 1059542851699319360, 6972732843819909978, 5558237345453186302,
         7845762441295307478, 771642788862502430, 8514850266767180993, 8683452355129068124,
         4345851588384648695, 7699391924090763411, 388440063886460141, 7561811714888168464,
         3959279844101328186, 8902041070398994519, 303089054982227392, 7338728586234333996,
         5392504858645185670, 7847956203786849690, 406703151708498928, 4756106358532488297,
         5837486892148644279, 4736217237333769909, 2264299874001785192, 1061380815263676471,
         7242748068272024738, 7719717197379695442, 4112921325496946042, 2671030200101705776,
         3508963237347473586, 8565714761387219319, 4564823113789767141, 1198006251912892506,
         7014402135919778893, 3983722386484812742, 2118716725206170867, 2587000937929698613,
         8489437897698681073, 1938800996802160635, 8097022081922209513, 7481608503761597087,
         6056649900269286653, 8056746523676181822, 4308690457412179793, 7663837986485606015,
         7132033595893905170, 8086159467323165929, 35604086129376003, 8559453321117178323,
         2006924026344156168, 8218430188258725598, 4255970180603226314, 2682844416202521633,
         4304520335772049496, 3462733497206508461, 5902760509050140210, 9021104375654741729,
         3604381780091280195, 2066195468801476818, 3331863358128628835, 759605945513541974,
         2408550365227740434, 5521202747878656476, 5596430475431407243, 6651829488660799814,
         8482125374365136680, 7862762095958642309, 4391202566038595699, 6215632031706852400,
         241482278320610612, 7442289190031176026, 5364953311572054685, 7945398411639602224,
         1925401661646756611, 150340687756601720, 4989862523986425397, 2803285039048912676,
         950400323440343118, 6430969915190400444, 1937101031588528881, 6604365855503062775,
         1836598054518427835, 7540276489530073149, 7638413271565042464, 3242614188194728891,
         6521671820626549617, 434400178965901716, 1891001667378689416, 1627381309359808899]
      else if seed = 1 then
        [5577006791947779410, 8674665223082153551, 6129484611666145821, 4037200794235010051,
         3916589616287113937, 6334824724549167320, 605394647632969758, 1443635317331776148,
         894385949183117216, 2775422040480279449, 4751997750760398084, 7504504064263669287,
         1976235410884491574, 3510942875414458836, 2933568871211445515, 4324745483838182873]
      else if seed = 42 then
        [3440579354231278675, 608747136543856411, 5571782338101878760, 1926012586526624009,
         404153945743547657, 3534334367214237261, 7497468244883513247, 3545887102062614208,
         3532963341805492868, 5961769557461764184, 6784982874943501314, 2010156224608899041,
         3335934666146214990, 1118224062840270781, 6124420007038740542, 4299969443970870044,
         6570415425842765075, 6603068123710785442, 8685383948212866759, 8953870811860009499,
         1100641557378252013, 3137486211269163098, 2643318057788968173, 2094832826273809275,
         6018823476402388478, 387177823285674209, 8548114504158162025, 1198686371618757660,
         4157513341729910236, 1947031852228291041, 3388162185735054281, 6656619927997724782,
         8232937408527042889, 9198671517108524046, 648280772094679011, 8978767854375171209,
         8639902132831672016, 7894140303635748408, 1398083032764859219, 5785305945910038487,
         6854889074665436954, 6972490225919430754, 2353959152108316618, 524317412587104192,
         6497639282066041812, 5274380952544653919, 7697922259999977824, 5013667937579866784,
         5135975278696416791, 7276889728610971305, 1724162991088869434, 1628829379025336882,
         8653968730584436721, 7317580557654915562, 4914400674417821484, 2157255887366150544,
         4180076654789305245, 2628757933617101898, 360690438419985591, 2388284803033957873,
         8427801741804500990, 6317064433972108951, 1545635944456092676, 6683509660637259755,
         559346544157562657, 2750659816549965649, 2816826369246239903, 5328953735686644455,
         8281354578677668636, 7994582440685163287, 2332036530383394983, 6443739379063817906,
         4184787942719568102, 8211857585299887830, 5883069593699632835, 4988602387584303978,
         4135512778078229954, 908393246387930417, 4432433323786193433, 8063729658764635782,
         8436727264406022700, 8890970237871203352, 2517632578438207868, 6775412096788225757,
         4088882508931753773, 6520300896597308550, 7552540801080509966, 1441509335434118525,
         1974382221470613555, 7323499654677190571, 2521561481059334249, 9164370140782074545,
         7863941801268104373, 1807818337367627932, 6204000644254686808, 4879942493625823277,
         3047082331882600663, 8781143854627702169, 3814222400681984302, 5342241822494793137,
         126717676512124610, 9057688761589453769, 3169615977206596990, 1283263450955133978,
         8482975297643168000, 8464546535989325344, 4884111666020894591, 3034897366669354117,
         6830935377660838268, 5886833906688734311, 3410570689975049714, 6025688929181751162,
         1410925273241585532, 2316217535716785625, 7606452276010381717, 6823168349905021995,
         3000848027476773113, 13013938835543503, 1018561637996640168, 7768111407243225335,
         1676487712298761579, 771530412271058804, 8331124630324891162, 6332339359204160455,
         1990377109865472737, 9141870321181686411, 592590578561866938, 3968454238659711532]
      else [])"

text \<open>
  The methods of \<open>rand.Rand\<close>: \<open>Uint32\<close> is \<open>uint32(r.Int63() >> 31)\<close> and \<open>Int31\<close> is
  \<open>int32(r.Int63() >> 32)\<close>.
\<close>

definition Int63 :: "int list \<Rightarrow> int \<times> int list" where
  "Int63 r = (case r of [] \<Rightarrow> (0, []) | x # r' \<Rightarrow> (x, r'))"

definition Uint32 :: "int list \<Rightarrow> int \<times> int list" where
  "Uint32 r = (case Int63 r of (x, r') \<Rightarrow> (x div 2 ^ 31, r'))"

definition Int31 :: "int list \<Rightarrow> int \<times> int list" where
  "Int31 r = (case Int63 r of (x, r') \<Rightarrow> (x div 2 ^ 32, r'))"

text \<open>
  \<open>int31n(n)\<close>, the draw of \<open>r.Shuffle\<close>: \<open>v := r.Uint32(); prod := uint64(v) * uint64(n);
  low := uint32(prod); if low < uint32(n) { thresh := uint32(-n) % uint32(n);
  for low < thresh { v = r.Uint32(); prod = ...; low = uint32(prod) } };
  return int32(prod >> 32)\<close>. The loop is \<open>int31nLoop\<close>, which makes the next \<open>Uint32\<close>
  from the head of the sequence.
\<close>

fun int31nLoop :: "int \<Rightarrow> int \<Rightarrow> int \<Rightarrow> int list \<Rightarrow> int \<times> int list" where
  "int31nLoop n thresh pr [] = (pr div 2 ^ 32, [])"
| "int31nLoop n thresh pr (x # r) =
     (if pr mod 2 ^ 32 < thresh then int31nLoop n thresh ((x div 2 ^ 31) * n) r
      else (pr div 2 ^ 32, x # r))"

definition int31n :: "int list \<Rightarrow> int \<Rightarrow> int \<times> int list" where
  "int31n r n =
     (case Uint32 r of
        (v, r') \<Rightarrow>
          if (v * n) mod 2 ^ 32 < n then int31nLoop n ((2 ^ 32 - n) mod n) (v * n) r'
          else ((v * n) div 2 ^ 32, r'))"

text \<open>
  \<open>Int31n(n)\<close> and \<open>Int63n(n)\<close>: \<open>if n&(n-1) == 0 { return r.Int31() & (n - 1) };
  max := int32((1 << 31) - 1 - (1 << 31) % uint32(n)); v := r.Int31();
  for v > max { v = r.Int31() }; return v % n\<close>, and the same with 63 bits and \<open>Int63\<close>.
  The loop is \<open>aboveLoop\<close>; its first argument is the shift that makes the next value
  from the head of the sequence. \<open>Intn(n)\<close> is \<open>Int31n\<close> up to \<open>n = 1 << 31 - 1\<close> and
  \<open>Int63n\<close> above.
\<close>

fun aboveLoop :: "nat \<Rightarrow> int \<Rightarrow> int \<Rightarrow> int list \<Rightarrow> int \<times> int list" where
  "aboveLoop sh mx v [] = (v, [])"
| "aboveLoop sh mx v (x # r) =
     (if mx < v then aboveLoop sh mx (x div 2 ^ sh) r else (v, x # r))"

definition Int31n :: "int list \<Rightarrow> int \<Rightarrow> int \<times> int list" where
  "Int31n r n =
     (case Int31 r of
        (v, r') \<Rightarrow>
          if n AND (n - 1) = 0 then (v AND (n - 1), r')
          else (case aboveLoop 32 (2 ^ 31 - 1 - 2 ^ 31 mod n) v r' of
                  (v', r'') \<Rightarrow> (v' mod n, r'')))"

definition Int63n :: "int list \<Rightarrow> int \<Rightarrow> int \<times> int list" where
  "Int63n r n =
     (case Int63 r of
        (v, r') \<Rightarrow>
          if n AND (n - 1) = 0 then (v AND (n - 1), r')
          else (case aboveLoop 0 (2 ^ 63 - 1 - 2 ^ 63 mod n) v r' of
                  (v', r'') \<Rightarrow> (v' mod n, r'')))"

definition Intn :: "int list \<Rightarrow> int \<Rightarrow> int \<times> int list" where
  "Intn r n = (if n \<le> 2 ^ 31 - 1 then Int31n r n else Int63n r n)"

text \<open>
  \<open>r.Shuffle\<close> draws \<open>j\<close> with \<open>Int63n(i + 1)\<close> while \<open>i > 1 << 31 - 1 - 1\<close> and with
  \<open>int31n(i + 1)\<close> below. The arguments and the results are lengths and positions of
  a slice, natural numbers in \<open>Shuffle\<close>.
\<close>

definition mathRand :: "int list randLib" where
  "mathRand =
     \<lparr>newSource = NewSource,
      shuffleDraw = (\<lambda>r n. case (if 2 ^ 31 - 1 < int n then Int63n r (int n) else int31n r (int n))
                              of (j, r') \<Rightarrow> (nat j, r')),
      intn = (\<lambda>r n. case Intn r (int n) of (v, r') \<Rightarrow> (nat v, r'))\<rparr>"

subsection \<open>Draining a generator\<close>

text \<open>
  A caller's loop \<open>for { s, ok := g.NextScenario(); if !ok { break }; ... }\<close>: the
  scenarios returned with \<open>ok = true\<close> before the first \<open>ok = false\<close>. The loop need not
  end, so it runs on fuel, one unit per call: \<open>None\<close> says that the fuel ran out before
  \<open>NextScenario\<close> reported exhaustion.
\<close>

fun drain :: "nat \<Rightarrow> Generator \<Rightarrow> (failure + Scenario list) option" where
  "drain 0 g = None"
| "drain (Suc fuel) g =
     (case NextScenario g of
        Inl e \<Rightarrow> Some (Inl e)
      | Inr (s, ok, g') \<Rightarrow>
          if ok then
            (case drain fuel g' of
               None \<Rightarrow> None
             | Some (Inl e) \<Rightarrow> Some (Inl e)
             | Some (Inr ss) \<Rightarrow> Some (Inr (s # ss)))
          else Some (Inr []))"

section \<open>Definitions for the proofs\<close>

subsection \<open>Concrete generators\<close>

text \<open>
  The generators that \<open>NewGenerator\<close> returns on a few small inputs, computed from the
  definitions. \<open>gen1111\<close> is \<open>NewGenerator(1, 1, 1, 1)\<close>: one replica, twinned, in one
  partition, one round. \<open>gen2112\<close> is \<open>NewGenerator(2, 1, 1, 2)\<close>.
\<close>

definition gen1111 :: Generator where
  "gen1111 =
     \<lparr>allNodes = [\<lparr>ReplicaID = 1, NetworkID = 1\<rparr>, \<lparr>ReplicaID = 1, NetworkID = 2\<rparr>],
      rounds = 1, partitions = 1, indices = [0], offsets = [0],
      leadersPartitions =
        [\<lparr>Leader = 1,
          PartitionScenario =
            [Some {\<lparr>ReplicaID = 1, NetworkID = 1\<rparr>, \<lparr>ReplicaID = 1, NetworkID = 2\<rparr>}]\<rparr>]\<rparr>"

definition nodes2112 :: "NodeID list" where
  "nodes2112 = [\<lparr>ReplicaID = 1, NetworkID = 1\<rparr>, \<lparr>ReplicaID = 1, NetworkID = 2\<rparr>,
                \<lparr>ReplicaID = 2, NetworkID = 3\<rparr>]"

definition gen2112 :: Generator where
  "gen2112 =
     \<lparr>allNodes = nodes2112,
      rounds = 2, partitions = 1, indices = [0, 0], offsets = [0, 0],
      leadersPartitions =
        [\<lparr>Leader = 1, PartitionScenario = [Some (set nodes2112)]\<rparr>,
         \<lparr>Leader = 2, PartitionScenario = [Some (set nodes2112)]\<rparr>]\<rparr>"

definition gen3022 :: Generator where
  "gen3022 =
     \<lparr>allNodes = [\<lparr>ReplicaID = 1, NetworkID = 1\<rparr>, \<lparr>ReplicaID = 2, NetworkID = 2\<rparr>,
                  \<lparr>ReplicaID = 3, NetworkID = 3\<rparr>],
      rounds = 2, partitions = 2, indices = [0, 0], offsets = [0, 0],
      leadersPartitions = []\<rparr>"

text \<open>
  \<open>gen2121\<close> is \<open>NewGenerator(2, 1, 2, 1)\<close>: the roster of \<open>gen2112\<close> in two partitions.
  The size vectors are \<open>(3, 0)\<close> and \<open>(2, 1)\<close>, the twin assignments \<open>(0, 0)\<close>, \<open>(0, 1)\<close>
  and \<open>(1, 1)\<close>; \<open>(3, 0)\<close> admits the first, \<open>(2, 1)\<close> the first two, which gives the three
  partition scenarios of \<open>scenarios2121\<close>, each with the leaders 1 and 2.
\<close>

definition scenarios2121 :: "NodeSet list list" where
  "scenarios2121 =
     [[Some (set nodes2112), None],
      [Some {\<lparr>ReplicaID = 1, NetworkID = 1\<rparr>, \<lparr>ReplicaID = 1, NetworkID = 2\<rparr>},
       Some {\<lparr>ReplicaID = 2, NetworkID = 3\<rparr>}],
      [Some {\<lparr>ReplicaID = 1, NetworkID = 1\<rparr>, \<lparr>ReplicaID = 2, NetworkID = 3\<rparr>},
       Some {\<lparr>ReplicaID = 1, NetworkID = 2\<rparr>}]]"

definition gen2121 :: Generator where
  "gen2121 =
     \<lparr>allNodes = nodes2112,
      rounds = 1, partitions = 2, indices = [0], offsets = [0],
      leadersPartitions =
        concat (map (\<lambda>p. [\<lparr>Leader = 1, PartitionScenario = p\<rparr>,
                            \<lparr>Leader = 2, PartitionScenario = p\<rparr>]) scenarios2121)\<rparr>"

subsection \<open>Shuffle: the positions drawn\<close>

text \<open>The permutation of positions that Shuffle draws for a seed and a length.\<close>

definition shufflePositions :: "'r randLib \<Rightarrow> 64 word \<Rightarrow> nat \<Rightarrow> failure + (nat list \<times> 'r)" where
  "shufflePositions lib seed n = shuffleLoop lib (n - 1) (newSource lib seed) [0..<n]"

text \<open>
  \<open>gen2112\<close> after \<open>Shuffle(42)\<close>: \<open>math/rand\<close> draws \<open>swap(1, 0)\<close> and the offsets 1
  and 0.
\<close>

definition shuffled2112 :: Generator where
  "shuffled2112 = gen2112\<lparr>leadersPartitions := rev (leadersPartitions gen2112), offsets := [1, 0]\<rparr>"

subsection \<open>Size vectors\<close>

text \<open>
  What the enumeration of the size vectors keeps: a vector is non-increasing and has a
  total as a natural number. \<open>recOK pre z N r\<close> describes the list \<open>r\<close> that
  \<open>genPartitionSizesRecursive\<close> returns at index \<open>length pre\<close>, under the fixed prefix
  \<open>pre\<close> and with \<open>z\<close> slots after the index; \<open>loopOK pre z m N r\<close> describes the list
  of its loop from \<open>m\<close> down, whose vectors have at most \<open>m\<close> at the index.
\<close>

definition nonIncreasing :: "u8 list \<Rightarrow> bool" where
  "nonIncreasing v = sorted_wrt (\<lambda>a b. b \<le> a) v"

definition totalSize :: "u8 list \<Rightarrow> nat" where
  "totalSize v = sum_list (map unat v)"

definition recOK :: "u8 list \<Rightarrow> nat \<Rightarrow> nat \<Rightarrow> u8 list list \<Rightarrow> bool" where
  "recOK pre z N r \<longleftrightarrow>
     distinct r \<and>
     (\<forall>v \<in> set r. (\<exists>suf. v = pre @ suf \<and> length suf = Suc z)
                   \<and> nonIncreasing v \<and> totalSize v = N \<and> 1 \<le> hd v)"

definition loopOK :: "u8 list \<Rightarrow> nat \<Rightarrow> u8 \<Rightarrow> nat \<Rightarrow> u8 list list \<Rightarrow> bool" where
  "loopOK pre z m N r \<longleftrightarrow>
     distinct r \<and>
     (\<forall>v \<in> set r. (\<exists>y suf. v = pre @ y # suf \<and> length suf = z \<and> y \<le> m)
                   \<and> nonIncreasing v \<and> totalSize v = N \<and> 1 \<le> hd v)"

subsection \<open>The roster in closed form\<close>

text \<open>
  The lists that the id loop of \<open>NewGenerator\<close> builds when \<open>t\<close> of \<open>c\<close> replicas are
  twinned: the twins, pair by pair, and the other nodes.
\<close>

definition rosterTwins :: "nat \<Rightarrow> NodeID list" where
  "rosterTwins t =
     concat (map (\<lambda>j. [\<lparr>ReplicaID = of_nat (j + 1), NetworkID = of_nat (2 * j + 1)\<rparr>,
                        \<lparr>ReplicaID = of_nat (j + 1), NetworkID = of_nat (2 * j + 2)\<rparr>])
                 [0..<t])"

definition rosterNodes :: "nat \<Rightarrow> nat \<Rightarrow> NodeID list" where
  "rosterNodes t c =
     map (\<lambda>j. \<lparr>ReplicaID = of_nat (j + 1), NetworkID = of_nat (t + j + 1)\<rparr>) [t..<c]"

subsection \<open>Partition scenarios\<close>

text \<open>
  The members of a NodeSet (the nil map has none), and what is claimed of a built
  partition scenario: \<open>sizedBy sz ps\<close> says that partition \<open>i\<close> has \<open>sz[i]\<close> members,
  \<open>partitionsRoster roster ps\<close> that the partitions are pairwise disjoint and that
  their union is the roster.
\<close>

definition members :: "NodeSet \<Rightarrow> NodeID set" where
  "members p = (case p of None \<Rightarrow> {} | Some S \<Rightarrow> S)"

definition sizedBy :: "u8 list \<Rightarrow> NodeSet list \<Rightarrow> bool" where
  "sizedBy sz ps \<longleftrightarrow>
     length ps = length sz \<and> (\<forall>i < length sz. lenNodeSet (ps ! i) = unat (sz ! i))"

definition partitionsRoster :: "NodeID list \<Rightarrow> NodeSet list \<Rightarrow> bool" where
  "partitionsRoster roster ps \<longleftrightarrow>
     (\<Union>i < length ps. members (ps ! i)) = set roster
     \<and> (\<forall>i < length ps. \<forall>j < length ps. i \<noteq> j \<longrightarrow> members (ps ! i) \<inter> members (ps ! j) = {})"

text \<open>
  The invariants of the builder's loops. \<open>placed sz cap ps used\<close> holds while the
  twins are placed: \<open>cap\<close> is the capacity that \<open>isValidTwinAssignment\<close> has left at
  the same point, and \<open>used\<close> the twins placed so far. \<open>filled tw nodes sz ps kk node\<close>
  holds when the fill loop reaches partition \<open>kk\<close> with its cursor at \<open>node\<close>: the
  partitions before \<open>kk\<close> are full, and the nodes from the cursor on are exactly what
  the others still lack.
\<close>

definition placed :: "u8 list \<Rightarrow> u8 list \<Rightarrow> NodeSet list \<Rightarrow> NodeID set \<Rightarrow> bool" where
  "placed sz cap ps used \<longleftrightarrow>
     length cap = length sz \<and> length ps = length sz
     \<and> (\<forall>j < length sz. finite (members (ps ! j))
            \<and> unat (cap ! j) + card (members (ps ! j)) = unat (sz ! j)
            \<and> (0 < sz ! j \<longrightarrow> ps ! j \<noteq> None))
     \<and> (\<forall>i < length sz. \<forall>j < length sz. i \<noteq> j \<longrightarrow> members (ps ! i) \<inter> members (ps ! j) = {})
     \<and> (\<Union>j < length sz. members (ps ! j)) = used"

definition filled :: "NodeID set \<Rightarrow> NodeID list \<Rightarrow> u8 list \<Rightarrow> NodeSet list \<Rightarrow> nat \<Rightarrow> nat \<Rightarrow> bool" where
  "filled tw nodes sz ps kk node \<longleftrightarrow>
     length ps = length sz
     \<and> (\<forall>j < length sz. finite (members (ps ! j)) \<and> card (members (ps ! j)) \<le> unat (sz ! j)
            \<and> (card (members (ps ! j)) < unat (sz ! j) \<longrightarrow> ps ! j \<noteq> None))
     \<and> (\<forall>j < length sz. j < kk \<longrightarrow> card (members (ps ! j)) = unat (sz ! j))
     \<and> (\<forall>i < length sz. \<forall>j < length sz. i \<noteq> j \<longrightarrow> members (ps ! i) \<inter> members (ps ! j) = {})
     \<and> (\<Union>j < length sz. members (ps ! j)) = tw \<union> set (take node nodes)
     \<and> node + (\<Sum>j = kk..<length sz. unat (sz ! j) - card (members (ps ! j))) = length nodes"

text \<open>The five scenarios that draining \<open>gen2121\<close> yields: one view each, the last one missing.\<close>

definition emitted2121 :: "Scenario list" where
  "emitted2121 =
     map (\<lambda>v. \<lparr>Nodes = nodes2112, Views = [v]\<rparr>) (butlast (leadersPartitions gen2121))"

subsection \<open>The odometer\<close>

text \<open>
  The number that \<open>indices\<close> spells in base \<open>len(leadersPartitions)\<close>, the first index
  being the most significant digit; and the states in which \<open>NextScenario\<close> does not
  panic: \<open>indices\<close> and \<open>offsets\<close> have one entry per round, each below
  \<open>len(leadersPartitions)\<close>.
\<close>

definition odometer :: "nat \<Rightarrow> nat list \<Rightarrow> nat" where
  "odometer L idx = foldl (\<lambda>a x. a * L + x) 0 idx"

definition validState :: "Generator \<Rightarrow> bool" where
  "validState g \<longleftrightarrow>
     length (indices g) = unat (rounds g) \<and> length (offsets g) = unat (rounds g)
     \<and> (\<forall>x \<in> set (indices g). x < length (leadersPartitions g))
     \<and> (\<forall>x \<in> set (offsets g). x < length (leadersPartitions g))"

section \<open>Evaluation on concrete inputs\<close>

lemmas construct_simps =
  NewGenerator_def genPartitionScenarios_def genPartitionSizes_def twinAssignmentsOf_def
  generateTwinPartitionPairs_def isValidTwinAssignment_def buildPartitions_def addTwin_def
  Add_def lenNodeSet_def

lemma NewGenerator_1_1_1_1: "NewGenerator 1 1 1 1 = Inr gen1111"
  by (simp add: construct_simps gen1111_def insert_commute)

lemma NewGenerator_1_1_1_0:
  "NewGenerator 1 1 1 0 = Inr (gen1111\<lparr>rounds := 0, indices := [], offsets := []\<rparr>)"
  by (simp add: construct_simps gen1111_def insert_commute)

lemma NewGenerator_1_2_1_1: "NewGenerator 1 2 1 1 = Inr gen1111"
  by (simp add: construct_simps gen1111_def insert_commute)

lemma NewGenerator_2_1_1_2: "NewGenerator 2 1 1 2 = Inr gen2112"
  by code_simp

lemma NewGenerator_2_1_2_1: "NewGenerator 2 1 2 1 = Inr gen2121"
  by code_simp

lemma NewGenerator_3_0_2_2: "NewGenerator 3 0 2 2 = Inr gen3022"
  by code_simp

section \<open>The scenario iterator\<close>

lemma NewGenerator_fields:
  assumes "NewGenerator replicas numTwins k r = Inr g"
  shows "rounds g = r" and "partitions g = k" and "indices g = replicate (unat r) 0"
    and "offsets g = replicate (unat r) 0"
  using assms by (auto simp: NewGenerator_def split: prod.splits sum.splits)

lemma advance_False: "advance len idx c = Inr (idx', False) \<Longrightarrow> idx' = []"
  by (induction c arbitrary: idx) (auto simp: Let_def split: if_splits)

text \<open>
  C1. Claimed: with \<open>rounds \<ge> 1\<close> and a non-empty list \<open>LP\<close>, draining yields
  \<open>|LP|^rounds\<close> scenarios, the all-max odometer state being the last one returned.
  On \<open>NewGenerator(2, 1, 1, 2)\<close> the list \<open>LP\<close> has two views (leaders 1 and 2) and
  there are two rounds, but the program returns three scenarios, with leaders
  \<open>[1,1]\<close>, \<open>[1,2]\<close>, \<open>[2,1]\<close>: the fourth call, at the all-max indices \<open>[1,1]\<close>,
  returns \<open>ok = false\<close> and the scenario with leaders \<open>[2,2]\<close> is never returned.
\<close>

theorem drain_misses_last_scenario:
  "NewGenerator 2 1 1 2 = Inr gen2112
   \<and> length (leadersPartitions gen2112) = 2 \<and> rounds gen2112 = 2
   \<and> map_option (map_sum id (map (map Leader \<circ> Views))) (drain 4 gen2112)
       = Some (Inr [[1, 1], [1, 2], [2, 1]])
   \<and> NextScenario (gen2112\<lparr>indices := [1, 1]\<rparr>)
       = Inr (zeroScenario, False, gen2112\<lparr>indices := []\<rparr>)"
  by code_simp

text \<open>
  C3. Claimed: after \<open>NextScenario\<close> has returned \<open>ok = false\<close>, a further call
  re-emits the all-zero scenario. In the program the exhausted generator has the empty
  \<open>indices\<close>, and with \<open>rounds \<ge> 1\<close> a further call emits nothing: it panics on
  \<open>g.indices[rounds-1]\<close>.
\<close>

theorem NextScenario_after_exhaustion:
  assumes "0 < rounds g" and "NextScenario g = Inr (s, False, g')"
  shows "indices g' = [] \<and> NextScenario g' = Inl IndexOutOfRange"
proof -
  from assms(2) obtain idx where
    adv: "advance (length (leadersPartitions g)) (indices g) (unat (rounds g)) = Inr (idx, False)"
    and g': "g' = g\<lparr>indices := idx\<rparr>"
    by (auto simp: NextScenario_def split: sum.splits if_splits)
  from adv have idx: "idx = []" by (rule advance_False)
  from assms(1) have "0 < unat (rounds g)"
    by (simp add: word_less_nat_alt)
  then obtain c where c: "unat (rounds g) = Suc c"
    by (cases "unat (rounds g)") simp_all
  show ?thesis
    by (simp add: g' idx NextScenario_def c)
qed

theorem NextScenario_after_exhaustion_witness:
  "0 < rounds gen1111
   \<and> NextScenario gen1111 = Inr (zeroScenario, False, gen1111\<lparr>indices := []\<rparr>)
   \<and> indices (gen1111\<lparr>indices := []\<rparr>) = []
   \<and> NextScenario (gen1111\<lparr>indices := []\<rparr>) = Inl IndexOutOfRange"
proof -
  have a: "0 < rounds gen1111" by (simp add: gen1111_def)
  have b: "NextScenario gen1111 = Inr (zeroScenario, False, gen1111\<lparr>indices := []\<rparr>)"
    by (simp add: NextScenario_def gen1111_def)
  from NextScenario_after_exhaustion [OF a b] a b show ?thesis by simp
qed

theorem NextScenario_after_exhaustion_counterexample:
  "NewGenerator 1 1 1 1 = Inr gen1111
   \<and> NextScenario gen1111 = Inr (zeroScenario, False, gen1111\<lparr>indices := []\<rparr>)
   \<and> NextScenario (gen1111\<lparr>indices := []\<rparr>) = Inl IndexOutOfRange"
  by (simp add: NewGenerator_1_1_1_1 NextScenario_def gen1111_def)

text \<open>
  C4. Claimed: with \<open>rounds = 0\<close> construction succeeds and the first \<open>NextScenario\<close>
  reports exhaustion. In the program a generator constructed with \<open>rounds = 0\<close> never
  reports exhaustion: every call returns \<open>ok = true\<close> with a scenario of no views, and
  leaves the generator as it was.
\<close>

theorem NextScenario_rounds_0:
  assumes "NewGenerator replicas numTwins k 0 = Inr g"
  shows "NextScenario g = Inr (\<lparr>Nodes = allNodes g, Views = []\<rparr>, True, g)"
proof -
  have "rounds g = 0" and "indices g = []"
    using NewGenerator_fields [OF assms] by simp_all
  then show ?thesis by (simp add: NextScenario_def)
qed

theorem NextScenario_rounds_0_witness:
  "NewGenerator 1 1 1 0 = Inr (gen1111\<lparr>rounds := 0, indices := [], offsets := []\<rparr>)
   \<and> NextScenario (gen1111\<lparr>rounds := 0, indices := [], offsets := []\<rparr>)
       = Inr (\<lparr>Nodes = allNodes gen1111, Views = []\<rparr>, True,
              gen1111\<lparr>rounds := 0, indices := [], offsets := []\<rparr>)"
  using NextScenario_rounds_0 [OF NewGenerator_1_1_1_0] NewGenerator_1_1_1_0 by simp

theorem NextScenario_rounds_0_counterexample:
  "NewGenerator 1 1 1 0 = Inr (gen1111\<lparr>rounds := 0, indices := [], offsets := []\<rparr>)
   \<and> NextScenario (gen1111\<lparr>rounds := 0, indices := [], offsets := []\<rparr>)
       = Inr (\<lparr>Nodes = [\<lparr>ReplicaID = 1, NetworkID = 1\<rparr>, \<lparr>ReplicaID = 1, NetworkID = 2\<rparr>],
                Views = []\<rparr>,
              True, gen1111\<lparr>rounds := 0, indices := [], offsets := []\<rparr>)"
  by (simp add: NewGenerator_1_1_1_0 NextScenario_def gen1111_def)

section \<open>Construction\<close>

lemma assignIDs_all_twins:
  "c \<le> unat rem1 \<Longrightarrow> c \<le> unat rem2 \<Longrightarrow>
   assignIDs c rid nid rem1 tw nd rids = assignIDs c rid nid rem2 tw nd rids"
proof (induction c arbitrary: rid nid rem1 rem2 tw nd rids)
  case 0
  show ?case by simp
next
  case (Suc c)
  from Suc.prems have pos: "0 < rem1" "0 < rem2"
    by (auto simp: word_less_nat_alt)
  then have "c \<le> unat (rem1 - 1)" "c \<le> unat (rem2 - 1)"
    using Suc.prems by (auto simp: unat_minus_one word_neq_0_conv)
  then have "assignIDs c (rid + 1) (nid + 1 + 1) (rem1 - 1)
               (tw @ [\<lparr>ReplicaID = rid, NetworkID = nid\<rparr>,
                      \<lparr>ReplicaID = rid, NetworkID = nid + 1\<rparr>]) nd (rids @ [rid])
             = assignIDs c (rid + 1) (nid + 1 + 1) (rem2 - 1)
               (tw @ [\<lparr>ReplicaID = rid, NetworkID = nid\<rparr>,
                      \<lparr>ReplicaID = rid, NetworkID = nid + 1\<rparr>]) nd (rids @ [rid])"
    by (rule Suc.IH)
  with pos show ?case by simp
qed

text \<open>
  C5. Claimed: with \<open>numTwins > replicas\<close> construction fails. The program checks
  nothing: it twins every replica and leaves the surplus of \<open>numTwins\<close> unused, so it
  returns what it returns for \<open>numTwins = replicas\<close>.
\<close>

theorem NewGenerator_numTwins_above_replicas:
  assumes "replicas < numTwins"
  shows "NewGenerator replicas numTwins k r = NewGenerator replicas replicas k r"
proof -
  have "unat replicas \<le> unat numTwins"
    using assms by (simp add: word_less_nat_alt)
  then have "assignIDs (unat replicas) 1 1 numTwins [] [] []
             = assignIDs (unat replicas) 1 1 replicas [] [] []"
    by (intro assignIDs_all_twins) simp_all
  then show ?thesis by (simp add: NewGenerator_def)
qed

theorem NewGenerator_numTwins_above_replicas_witness:
  "(1 :: u8) < 2 \<and> NewGenerator 1 2 1 1 = NewGenerator 1 1 1 1
   \<and> NewGenerator 1 1 1 1 = Inr gen1111"
proof -
  have h: "(1 :: u8) < 2" by simp
  from NewGenerator_numTwins_above_replicas [OF h, of 1 1] h NewGenerator_1_1_1_1
  show ?thesis by simp
qed

theorem NewGenerator_numTwins_above_replicas_counterexample:
  "(1 :: u8) < 2 \<and> NewGenerator 1 2 1 1 = Inr gen1111"
  by (simp add: NewGenerator_1_2_1_1)

section \<open>The order of the twin assignments\<close>

lemma nth_concat_map_uniform:
  "\<forall>x \<in> set xs. length (f x) = m \<Longrightarrow> N < length xs * m \<Longrightarrow>
   concat (map f xs) ! N = f (xs ! (N div m)) ! (N mod m)"
proof (induction xs arbitrary: N)
  case Nil
  then show ?case by simp
next
  case (Cons x xs)
  have len: "length (f x) = m" using Cons.prems(1) by simp
  from Cons.prems(2) have mpos: "0 < m" by (cases m) simp_all
  show ?case
  proof (cases "N < m")
    case True
    then show ?thesis by (simp add: nth_append len)
  next
    case False
    then have ge: "m \<le> N" by simp
    have lt: "N - m < length xs * m" using Cons.prems(2) ge by simp
    have d: "N div m = Suc ((N - m) div m)"
      using ge mpos by (simp add: le_div_geq)
    have md: "N mod m = (N - m) mod m"
      using ge by (simp add: le_mod_geq)
    have "concat (map f (x # xs)) ! N = concat (map f xs) ! (N - m)"
      using False by (simp add: nth_append len)
    also have "\<dots> = f (xs ! ((N - m) div m)) ! ((N - m) mod m)"
      using Cons.IH [of "N - m"] Cons.prems(1) lt by simp
    finally show ?thesis by (simp add: d md)
  qed
qed

lemma length_concat_map_uniform:
  "\<forall>x \<in> set xs. length (f x) = m \<Longrightarrow> length (concat (map f xs)) = length xs * m"
  by (induction xs) simp_all

lemma length_cartesianProduct_replicate:
  "length (cartesianProduct (replicate t xs)) = length xs ^ t"
  by (induction t) (simp_all add: Let_def length_concat_map_uniform)

lemma mod_mult_div_nat:
  fixes N a b :: nat
  shows "(N mod (a * b)) div a = (N div a) mod b"
proof (cases "a = 0")
  case True
  then show ?thesis by simp
next
  case False
  have "N mod (a * b) = a * (N div a mod b) + N mod a"
    by (rule mod_mult2_eq)
  then have "(N mod (a * b)) div a = (a * (N div a mod b) + N mod a) div a"
    by simp
  also have "\<dots> = N div a mod b"
    using False by simp
  finally show ?thesis .
qed

lemma digit_of_mod_power:
  fixes N P :: nat
  assumes "e < t"
  shows "((N mod P ^ t) div P ^ e) mod P = (N div P ^ e) mod P"
proof -
  obtain d where t: "t = e + Suc d" using assms less_iff_Suc_add by auto
  have pt: "P ^ t = P ^ e * P ^ Suc d"
    by (simp only: t power_add)
  have "(N mod (P ^ e * P ^ Suc d)) div P ^ e = (N div P ^ e) mod P ^ Suc d"
    by (rule mod_mult_div_nat)
  then have "((N mod P ^ t) div P ^ e) mod P = ((N div P ^ e) mod P ^ Suc d) mod P"
    by (simp only: pt)
  also have "\<dots> = (N div P ^ e) mod P"
    by (rule mod_mod_cancel) simp
  finally show ?thesis .
qed

lemma cartesianProduct_replicate_nth:
  "N < length xs ^ t \<Longrightarrow> j < t \<Longrightarrow>
   cartesianProduct (replicate t xs) ! N ! j = xs ! ((N div length xs ^ (t - 1 - j)) mod length xs)"
proof (induction t arbitrary: N j)
  case 0
  then show ?case by simp
next
  case (Suc t)
  let ?P = "length xs"
  let ?r = "cartesianProduct (replicate t xs)"
  have lenr: "length ?r = ?P ^ t" by (rule length_cartesianProduct_replicate)
  have N: "N < ?P * ?P ^ t" using Suc.prems(1) by simp
  then have Ppos: "0 < ?P ^ t" by (cases "?P ^ t") simp_all
  have hi: "N div ?P ^ t < ?P"
    using N by (simp add: less_mult_imp_div_less mult.commute)
  have lo: "N mod ?P ^ t < ?P ^ t" using Ppos by simp
  have "cartesianProduct (replicate (Suc t) xs) ! N
        = map (\<lambda>p. xs ! (N div ?P ^ t) # p) ?r ! (N mod ?P ^ t)"
    using nth_concat_map_uniform [of xs "\<lambda>v. map (\<lambda>p. v # p) ?r" "?P ^ t" N] N lenr
    by (simp add: Let_def)
  also have "\<dots> = xs ! (N div ?P ^ t) # ?r ! (N mod ?P ^ t)"
    using lo lenr by simp
  finally have row: "cartesianProduct (replicate (Suc t) xs) ! N
        = xs ! (N div ?P ^ t) # ?r ! (N mod ?P ^ t)" .
  show ?case
  proof (cases j)
    case 0
    then show ?thesis using row hi by simp
  next
    case (Suc j')
    then have j': "j' < t" using Suc.prems(2) by simp
    have "cartesianProduct (replicate (Suc t) xs) ! N ! j = ?r ! (N mod ?P ^ t) ! j'"
      using row Suc by simp
    also have "\<dots> = xs ! (((N mod ?P ^ t) div ?P ^ (t - 1 - j')) mod ?P)"
      using Suc.IH [OF lo j'] .
    also have "\<dots> = xs ! ((N div ?P ^ (t - 1 - j')) mod ?P)"
      using digit_of_mod_power [of "t - 1 - j'" t N ?P] j' by simp
    finally show ?thesis using Suc by simp
  qed
qed

text \<open>
  C9. The product of the twin-pair list with itself \<open>t\<close> times varies fastest in the
  last position: with \<open>P\<close> pairs there are \<open>P ^ t\<close> tuples, and position \<open>j\<close> of tuple
  number \<open>N\<close> is the pair of index \<open>(N div P ^ (t - 1 - j)) mod P\<close>, the digit of weight
  \<open>P ^ (t - 1 - j)\<close> of \<open>N\<close> in base \<open>P\<close>. So the last position steps with every tuple
  and position \<open>j\<close> keeps its pair for \<open>P ^ (t - 1 - j)\<close> consecutive tuples.
\<close>

theorem cartesianProduct_last_position_fastest:
  "length (cartesianProduct (replicate t (generateTwinPartitionPairs k)))
     = length (generateTwinPartitionPairs k) ^ t
   \<and> (\<forall>N j. N < length (generateTwinPartitionPairs k) ^ t \<and> j < t \<longrightarrow>
        cartesianProduct (replicate t (generateTwinPartitionPairs k)) ! N ! j
          = generateTwinPartitionPairs k
              ! ((N div length (generateTwinPartitionPairs k) ^ (t - 1 - j))
                   mod length (generateTwinPartitionPairs k)))"
  by (simp add: length_cartesianProduct_replicate cartesianProduct_replicate_nth)

theorem cartesianProduct_last_position_fastest_witness:
  "length (cartesianProduct (replicate 2 (generateTwinPartitionPairs 2))) = 9
   \<and> (5 :: nat) < length (generateTwinPartitionPairs 2) ^ 2 \<and> (1 :: nat) < 2
   \<and> cartesianProduct (replicate 2 (generateTwinPartitionPairs 2)) ! 5 ! 1 = (1, 1)"
proof -
  have pairs: "generateTwinPartitionPairs 2 = [(0, 0), (0, 1), (1, 1)]"
    by code_simp
  have len: "length (generateTwinPartitionPairs 2) = 3"
    by (simp add: pairs)
  have bounds: "(5 :: nat) < length (generateTwinPartitionPairs 2) ^ 2 \<and> (1 :: nat) < 2"
    by (simp add: len)
  note t = cartesianProduct_last_position_fastest [of 2 2]
  from t have a: "length (cartesianProduct (replicate 2 (generateTwinPartitionPairs 2))) = 9"
    by (simp add: len)
  from t bounds have "cartesianProduct (replicate 2 (generateTwinPartitionPairs 2)) ! 5 ! 1
      = generateTwinPartitionPairs 2
              ! ((5 div length (generateTwinPartitionPairs 2) ^ (2 - 1 - 1))
                   mod length (generateTwinPartitionPairs 2))"
    by blast
  then have b: "cartesianProduct (replicate 2 (generateTwinPartitionPairs 2)) ! 5 ! 1 = (1, 1)"
    by (simp add: len) (simp add: pairs)
  from a b bounds show ?thesis by simp
qed

section \<open>The roster\<close>

lemma upt_0_Suc_Cons: "[0..<Suc c] = 0 # map Suc [0..<c]"
  by (metis map_Suc_upt upt_conv_Cons zero_less_Suc)

lemma assignIDs_no_twins:
  "assignIDs c rid nid 0 tw nd rids =
     (tw,
      nd @ map (\<lambda>j. \<lparr>ReplicaID = rid + of_nat j, NetworkID = nid + of_nat j\<rparr>) [0..<c],
      rids @ map (\<lambda>j. rid + of_nat j) [0..<c])"
proof (induction c arbitrary: rid nid nd rids)
  case 0
  show ?case by simp
next
  case (Suc c)
  show ?case
    by (simp only: assignIDs.simps Suc.IH upt_0_Suc_Cons)
       (simp add: comp_def add.assoc add.left_commute)
qed

lemma assignIDs_twins:
  "unat rem = t \<Longrightarrow> t \<le> c \<Longrightarrow>
   assignIDs c rid nid rem tw nd rids =
     (tw @ concat (map (\<lambda>j. [\<lparr>ReplicaID = rid + of_nat j, NetworkID = nid + 2 * of_nat j\<rparr>,
                              \<lparr>ReplicaID = rid + of_nat j, NetworkID = nid + 2 * of_nat j + 1\<rparr>])
                       [0..<t]),
      nd @ map (\<lambda>j. \<lparr>ReplicaID = rid + of_nat j, NetworkID = nid + of_nat t + of_nat j\<rparr>) [t..<c],
      rids @ map (\<lambda>j. rid + of_nat j) [0..<c])"
proof (induction t arbitrary: c rid nid rem tw nd rids)
  case 0
  then have "rem = 0" by (simp add: unat_eq_0)
  then show ?case by (simp add: assignIDs_no_twins)
next
  case (Suc t)
  from Suc.prems obtain c' where c: "c = Suc c'" by (cases c) simp_all
  from Suc.prems have pos: "0 < rem" by (auto simp: word_less_nat_alt)
  have rem': "unat (rem - 1) = t"
    using Suc.prems pos by (simp add: unat_minus_one word_neq_0_conv)
  have le: "t \<le> c'" using Suc.prems c by simp
  have shift: "[Suc t..<Suc c'] = map Suc [t..<c']" by (simp add: map_Suc_upt)
  show ?case
    unfolding c
    by (simp only: assignIDs.simps pos if_True Suc.IH [OF rem' le] upt_0_Suc_Cons shift)
       (simp add: comp_def algebra_simps)
qed


lemma twin_network_ids: "concat (map (\<lambda>j. [2 * j + 1, 2 * j + 2]) [0..<t]) = [1..<2 * t + 1]"
  by (induction t) simp_all

lemma map_add_upt_from: "map (\<lambda>j. n + j + 1) [a..<b] = [n + a + 1..<n + b + 1]"
  by (induction b) simp_all

lemma unat_of_nat_u32: "x < 2 ^ 32 \<Longrightarrow> unat (of_nat x :: u32) = x"
  by (simp add: unat_of_nat)

lemma assignIDs_roster:
  assumes "unat numTwins \<le> c"
  shows "assignIDs c 1 1 numTwins [] [] []
           = (rosterTwins (unat numTwins), rosterNodes (unat numTwins) c,
              map (\<lambda>j. 1 + of_nat j) [0..<c])"
  by (simp add: assignIDs_twins [OF refl assms] rosterTwins_def rosterNodes_def
        add.commute add.left_commute add.assoc)

lemma roster_network_ids:
  assumes le: "t \<le> c" and c: "c < 256"
  shows "map (unat \<circ> NetworkID) (rosterTwins t @ rosterNodes t c) = [1..<c + t + 1]"
proof -
  have small: "unat (of_nat x :: u32) = x" if "x \<le> 2 * c + 1" for x
    using that c by (intro unat_of_nat_u32) simp
  have "map (\<lambda>j. map (unat \<circ> NetworkID)
                  [\<lparr>ReplicaID = of_nat (j + 1), NetworkID = of_nat (2 * j + 1)\<rparr>,
                   \<lparr>ReplicaID = of_nat (j + 1), NetworkID = of_nat (2 * j + 2) :: u32\<rparr>]) [0..<t]
        = map (\<lambda>j. [2 * j + 1, 2 * j + 2]) [0..<t]"
  proof (rule map_cong [OF refl])
    fix j assume "j \<in> set [0..<t]"
    then have "2 * j + 1 \<le> 2 * c + 1" "2 * j + 2 \<le> 2 * c + 1"
      using le by simp_all
    then have "unat (of_nat (2 * j + 1) :: u32) = 2 * j + 1"
      and "unat (of_nat (2 * j + 2) :: u32) = 2 * j + 2"
      by (simp_all only: small)
    then show "map (unat \<circ> NetworkID)
                  [\<lparr>ReplicaID = of_nat (j + 1), NetworkID = of_nat (2 * j + 1)\<rparr>,
                   \<lparr>ReplicaID = of_nat (j + 1), NetworkID = of_nat (2 * j + 2) :: u32\<rparr>]
               = [2 * j + 1, 2 * j + 2]"
      by (simp only: list.map comp_apply NodeID.simps)
  qed
  then have "map (unat \<circ> NetworkID) (rosterTwins t)
             = concat (map (\<lambda>j. [2 * j + 1, 2 * j + 2]) [0..<t])"
    by (simp only: rosterTwins_def map_concat map_map comp_def)
  then have tw: "map (unat \<circ> NetworkID) (rosterTwins t) = [1..<2 * t + 1]"
    by (simp only: twin_network_ids)
  have "map (unat \<circ> NetworkID) (rosterNodes t c) = map (\<lambda>j. t + j + 1) [t..<c]"
  proof -
    have "unat (of_nat (t + j + 1) :: u32) = t + j + 1" if "j \<in> set [t..<c]" for j
      using that le by (intro small) simp
    then show ?thesis
      by (simp only: rosterNodes_def map_map comp_def NodeID.simps cong: map_cong)
  qed
  then have nd: "map (unat \<circ> NetworkID) (rosterNodes t c) = [t + t + 1..<t + c + 1]"
    by (simp only: map_add_upt_from)
  have "[1..<2 * t + 1] @ [t + t + 1..<t + c + 1] = [1..<c + t + 1]"
  proof -
    have "[1..<(2 * t + 1) + (c - t)] = [1..<2 * t + 1] @ [2 * t + 1..<(2 * t + 1) + (c - t)]"
      by (rule upt_add_eq_append) simp
    moreover have "(2 * t + 1) + (c - t) = c + t + 1" using le by simp
    moreover have "t + c + 1 = c + t + 1" "t + t = 2 * t" by simp_all
    ultimately show ?thesis by (simp only:)
  qed
  then show ?thesis
    using tw nd by (simp only: map_append)
qed

lemma roster_distinct:
  assumes "t \<le> c" and "c < 256"
  shows "distinct (rosterTwins t @ rosterNodes t c)"
proof -
  have "distinct (map (unat \<circ> NetworkID) (rosterTwins t @ rosterNodes t c))"
    by (simp only: roster_network_ids [OF assms] distinct_upt)
  then show ?thesis by (simp only: distinct_map)
qed

lemma roster_lengths:
  "length (rosterTwins t) = 2 * t" "length (rosterNodes t c) = c - t"
  by (simp_all add: rosterTwins_def rosterNodes_def length_concat comp_def sum_list_triv)

text \<open>
  C10. When \<open>numTwins \<le> replicas\<close>, the roster of a constructed generator lists the
  twinned NodeIds first, pair by pair in allocation order, then the other NodeIds:
  pair \<open>j\<close> (from 0) is \<open>(j + 1, 2j + 1)\<close>, \<open>(j + 1, 2j + 2)\<close>, two NodeIds with one
  ReplicaId and consecutive NetworkIds, and replica \<open>j + 1\<close> beyond the twins is
  \<open>(j + 1, numTwins + j + 1)\<close>. Read along the roster, the NetworkIds are
  \<open>1, 2, ..., replicas + numTwins\<close>, without wrap-around.
\<close>

theorem roster_order:
  assumes "numTwins \<le> replicas" and "NewGenerator replicas numTwins k r = Inr g"
  shows "allNodes g =
           concat (map (\<lambda>j. [\<lparr>ReplicaID = of_nat (j + 1), NetworkID = of_nat (2 * j + 1)\<rparr>,
                              \<lparr>ReplicaID = of_nat (j + 1), NetworkID = of_nat (2 * j + 2)\<rparr>])
                       [0..<unat numTwins])
           @ map (\<lambda>j. \<lparr>ReplicaID = of_nat (j + 1), NetworkID = of_nat (unat numTwins + j + 1)\<rparr>)
               [unat numTwins..<unat replicas]
         \<and> map (unat \<circ> NetworkID) (allNodes g) = [1..<unat replicas + unat numTwins + 1]"
proof -
  have le: "unat numTwins \<le> unat replicas" using assms(1) by (simp add: word_le_nat_alt)
  have c: "unat replicas < 256" using unsigned_less [of replicas, where 'a = nat] by simp
  from assms(2) have "allNodes g = rosterTwins (unat numTwins) @ rosterNodes (unat numTwins) (unat replicas)"
    by (auto simp: NewGenerator_def assignIDs_roster [OF le] split: sum.splits)
  then show ?thesis
    using roster_network_ids [OF le c] by (simp add: rosterTwins_def rosterNodes_def)
qed

theorem roster_order_witness:
  "(1 :: u8) \<le> 4
   \<and> (case NewGenerator 4 1 2 1 of
        Inl e \<Rightarrow> False
      | Inr g \<Rightarrow>
          allNodes g = [\<lparr>ReplicaID = 1, NetworkID = 1\<rparr>, \<lparr>ReplicaID = 1, NetworkID = 2\<rparr>,
                        \<lparr>ReplicaID = 2, NetworkID = 3\<rparr>, \<lparr>ReplicaID = 3, NetworkID = 4\<rparr>,
                        \<lparr>ReplicaID = 4, NetworkID = 5\<rparr>]
          \<and> map (unat \<circ> NetworkID) (allNodes g) = [1, 2, 3, 4, 5])"
proof -
  have h: "(1 :: u8) \<le> 4" by simp
  have "\<not> isl (NewGenerator 4 1 2 1)" by code_simp
  then obtain g where g: "NewGenerator 4 1 2 1 = Inr g"
    by (cases "NewGenerator 4 1 2 1") simp_all
  have u: "[0..<unat (1 :: u8)] = [0]" "[unat (1 :: u8)..<unat (4 :: u8)] = [1, 2, 3]"
    "[1..<unat (4 :: u8) + unat (1 :: u8) + 1] = [1, 2, 3, 4, 5]"
    by code_simp+
  from roster_order [OF h g] have
    "allNodes g = [\<lparr>ReplicaID = 1, NetworkID = 1\<rparr>, \<lparr>ReplicaID = 1, NetworkID = 2\<rparr>,
                        \<lparr>ReplicaID = 2, NetworkID = 3\<rparr>, \<lparr>ReplicaID = 3, NetworkID = 4\<rparr>,
                        \<lparr>ReplicaID = 4, NetworkID = 5\<rparr>]
          \<and> map (unat \<circ> NetworkID) (allNodes g) = [1, 2, 3, 4, 5]"
    unfolding u by simp
  with h g show ?thesis by simp
qed

section \<open>Shuffle\<close>

lemma shuffleLoop_map:
  "shuffleLoop lib i r (map f xs) =
     (case shuffleLoop lib i r xs of Inl e \<Rightarrow> Inl e | Inr (ys, r') \<Rightarrow> Inr (map f ys, r'))"
proof (induction i arbitrary: r xs)
  case 0
  show ?case by simp
next
  case (Suc i)
  obtain j r' where d: "shuffleDraw lib r (Suc i + 1) = (j, r')"
    by (cases "shuffleDraw lib r (Suc i + 1)")
  show ?case
  proof (cases "length xs \<le> Suc i \<or> length xs \<le> j")
    case True
    then show ?thesis using d by auto
  next
    case False
    then have "(map f xs)[Suc i := map f xs ! j, j := map f xs ! Suc i]
               = map f (xs[Suc i := xs ! j, j := xs ! Suc i])"
      by (simp add: map_update)
    then show ?thesis using d False Suc.IH [of r' "xs[Suc i := xs ! j, j := xs ! Suc i]"]
      by simp
  qed
qed

lemma shuffleLoop_mset:
  "shuffleLoop lib i r xs = Inr (ys, r') \<Longrightarrow> mset ys = mset xs"
proof (induction i arbitrary: r xs)
  case 0
  then show ?case by simp
next
  case (Suc i)
  obtain j r1 where d: "shuffleDraw lib r (Suc i + 1) = (j, r1)"
    by (cases "shuffleDraw lib r (Suc i + 1)")
  from Suc.prems d have inr: "\<not> (length xs \<le> Suc i \<or> length xs \<le> j)"
    and rec: "shuffleLoop lib i r1 (xs[Suc i := xs ! j, j := xs ! Suc i]) = Inr (ys, r')"
    by (auto split: if_splits)
  from Suc.IH [OF rec] have "mset ys = mset (xs[Suc i := xs ! j, j := xs ! Suc i])" .
  also have "\<dots> = mset xs" using inr by (simp add: mset_swap)
  finally show ?case .
qed

lemma shuffleLoop_positions:
  "shuffleLoop lib (length xs - 1) (newSource lib seed) xs =
     (case shufflePositions lib seed (length xs) of
        Inl e \<Rightarrow> Inl e
      | Inr (perm, r') \<Rightarrow> Inr (map ((!) xs) perm, r'))"
proof -
  have "xs = map ((!) xs) [0..<length xs]" by (simp add: map_nth)
  then have "shuffleLoop lib (length xs - 1) (newSource lib seed) xs
             = shuffleLoop lib (length xs - 1) (newSource lib seed) (map ((!) xs) [0..<length xs])"
    by simp
  then show ?thesis
    by (simp only: shuffleLoop_map shufflePositions_def)
qed

lemma drawOffsets_length:
  "drawOffsets lib len r offs = Inr vs \<Longrightarrow> length vs = length offs"
  by (induction offs arbitrary: r vs) (auto split: if_splits prod.splits sum.splits)

lemma drawOffsets_cong:
  "length offs = length offs' \<Longrightarrow> drawOffsets lib len r offs = drawOffsets lib len r offs'"
proof (induction offs arbitrary: r offs')
  case Nil
  then show ?case by simp
next
  case (Cons a offs)
  then obtain b rest where o: "offs' = b # rest" by (cases offs') simp_all
  with Cons.prems have "length offs = length rest" by simp
  then have "\<And>r. drawOffsets lib len r offs = drawOffsets lib len r rest"
    by (rule Cons.IH)
  then show ?case by (simp add: o)
qed

lemma Shuffle_positions:
  assumes "Shuffle lib seed g = Inr g1"
  shows "\<exists>perm r'. shufflePositions lib seed (length (leadersPartitions g)) = Inr (perm, r')
           \<and> leadersPartitions g1 = map ((!) (leadersPartitions g)) perm
           \<and> length perm = length (leadersPartitions g)
           \<and> mset perm = mset [0..<length (leadersPartitions g)]
           \<and> drawOffsets lib (length (leadersPartitions g)) r' (offsets g) = Inr (offsets g1)"
proof -
  let ?lp = "leadersPartitions g"
  from assms obtain lp r' offs where
    sh: "shuffleLoop lib (length ?lp - 1) (newSource lib seed) ?lp = Inr (lp, r')"
    and dr: "drawOffsets lib (length lp) r' (offsets g) = Inr offs"
    and g1: "g1 = g\<lparr>leadersPartitions := lp, offsets := offs\<rparr>"
    by (auto simp: Shuffle_def split: sum.splits prod.splits)
  from sh [unfolded shuffleLoop_positions] obtain perm where
    p: "shufflePositions lib seed (length ?lp) = Inr (perm, r')" and lp: "lp = map ((!) ?lp) perm"
    by (auto split: sum.splits prod.splits)
  from p have ms: "mset perm = mset [0..<length ?lp]"
    unfolding shufflePositions_def by (rule shuffleLoop_mset)
  then have len: "length perm = length ?lp"
    by (metis length_upt minus_nat.diff_0 size_mset)
  show ?thesis using p lp ms len dr g1 by simp
qed

lemma map_nth_positions_eq:
  assumes "distinct xs" and "mset perm = mset [0..<length xs]"
    and "map ((!) xs) perm = xs"
  shows "perm = [0..<length xs]"
proof -
  have set: "set perm = {0..<length xs}"
    using assms(2) by (metis set_mset_mset set_upt)
  have inj: "inj_on ((!) xs) (set perm \<union> set [0..<length xs])"
    using assms(1) by (auto simp: set inj_on_def nth_eq_iff_index_eq)
  have "map ((!) xs) perm = map ((!) xs) [0..<length xs]"
    using assms(3) by (simp add: map_nth)
  then show ?thesis using inj by (simp only: inj_on_map_eq_map)
qed

text \<open>
  C6. Claimed: \<open>Shuffle(s)\<close> twice leaves the generator as \<open>Shuffle(s)\<close> once does.
  The program is deterministic per seed, not idempotent. The second call draws what
  the first drew, so it sets the same offsets; and it permutes \<open>LP\<close> once more, by the
  same permutation of positions. When the views of \<open>LP\<close> are distinct, the second call
  leaves \<open>LP\<close> as the first call left it only if the first call did not change it.
  On \<open>NewGenerator(2, 1, 1, 2)\<close> the seed 42 swaps the two views at each call, so the
  second call undoes the first; the seed 0 swaps nothing.
\<close>

theorem Shuffle_twice:
  assumes "Shuffle lib seed g = Inr g1" and "Shuffle lib seed g1 = Inr g2"
  shows "offsets g2 = offsets g1
         \<and> (\<exists>perm. mset perm = mset [0..<length (leadersPartitions g)]
               \<and> leadersPartitions g1 = map ((!) (leadersPartitions g)) perm
               \<and> leadersPartitions g2 = map ((!) (leadersPartitions g1)) perm)
         \<and> (distinct (leadersPartitions g) \<and> leadersPartitions g2 = leadersPartitions g1
              \<longrightarrow> leadersPartitions g1 = leadersPartitions g)"
proof -
  let ?lp = "leadersPartitions g"
  from Shuffle_positions [OF assms(1)] obtain perm r' where
    p: "shufflePositions lib seed (length ?lp) = Inr (perm, r')"
    and lp1: "leadersPartitions g1 = map ((!) ?lp) perm"
    and len: "length perm = length ?lp"
    and ms: "mset perm = mset [0..<length ?lp]"
    and dr: "drawOffsets lib (length ?lp) r' (offsets g) = Inr (offsets g1)"
    by blast
  have len1: "length (leadersPartitions g1) = length ?lp"
    using lp1 len by simp
  from Shuffle_positions [OF assms(2)] obtain perm2 r2 where
    p2: "shufflePositions lib seed (length (leadersPartitions g1)) = Inr (perm2, r2)"
    and lp2: "leadersPartitions g2 = map ((!) (leadersPartitions g1)) perm2"
    and dr2: "drawOffsets lib (length (leadersPartitions g1)) r2 (offsets g1) = Inr (offsets g2)"
    by blast
  from p p2 len1 have same: "perm2 = perm" "r2 = r'" by simp_all
  have "length (offsets g1) = length (offsets g)"
    using dr by (rule drawOffsets_length)
  then have "drawOffsets lib (length ?lp) r' (offsets g1)
             = drawOffsets lib (length ?lp) r' (offsets g)"
    by (rule drawOffsets_cong)
  with dr dr2 same len1 have offs: "offsets g2 = offsets g1" by simp
  have fixed: "leadersPartitions g1 = ?lp"
    if d: "distinct ?lp" and eq: "leadersPartitions g2 = leadersPartitions g1"
  proof -
    have "mset (leadersPartitions g1) = image_mset ((!) ?lp) (mset [0..<length ?lp])"
      using ms by (simp only: lp1 mset_map)
    also have "\<dots> = mset (map ((!) ?lp) [0..<length ?lp])" by simp
    also have "\<dots> = mset ?lp" by (simp only: map_nth)
    finally have "mset (leadersPartitions g1) = mset ?lp" .
    then have "distinct (leadersPartitions g1) = distinct ?lp"
      by (rule mset_eq_imp_distinct_iff)
    with d have "distinct (leadersPartitions g1)" by simp
    moreover have "mset perm = mset [0..<length (leadersPartitions g1)]"
      using ms len1 by simp
    moreover have "map ((!) (leadersPartitions g1)) perm = leadersPartitions g1"
      using eq lp2 same by simp
    ultimately have "perm = [0..<length (leadersPartitions g1)]"
      by (rule map_nth_positions_eq)
    then show ?thesis using lp1 len1 by (simp add: map_nth)
  qed
  from offs ms lp1 lp2 same fixed show ?thesis by blast
qed

text \<open>
  \<open>Shuffle\<close> on \<open>math/rand\<close>. With the seed 1, ten calls of \<open>Intn(100)\<close> return 81, 87,
  47, 59, 81, 18, 25, 40, 56 and 0. The next two lemmas give the positions that
  \<open>r.Shuffle\<close> draws for a list of 2, 3, 4 or 6 entries: with the seed 42 no such list
  stays as it is, with the seed 0 the list of two entries does.
\<close>

lemma Intn_seed_1:
  "drawOffsets mathRand 100 (NewSource 1) (replicate 10 0)
     = Inr [81, 87, 47, 59, 81, 18, 25, 40, 56, 0]"
  by code_simp

lemma shufflePositions_seed_42:
  "map_sum id fst (shufflePositions mathRand 42 2) = Inr [1, 0]"
  "map_sum id fst (shufflePositions mathRand 42 3) = Inr [2, 0, 1]"
  "map_sum id fst (shufflePositions mathRand 42 4) = Inr [2, 3, 0, 1]"
  "map_sum id fst (shufflePositions mathRand 42 6) = Inr [1, 3, 4, 5, 0, 2]"
  by code_simp+

lemma shufflePositions_seed_0:
  "map_sum id fst (shufflePositions mathRand 0 2) = Inr [0, 1]"
  "map_sum id fst (shufflePositions mathRand 0 3) = Inr [1, 0, 2]"
  "map_sum id fst (shufflePositions mathRand 0 4) = Inr [2, 1, 0, 3]"
  "map_sum id fst (shufflePositions mathRand 0 6) = Inr [4, 3, 0, 2, 1, 5]"
  by code_simp+

lemma Shuffle_gen2112: "Shuffle mathRand 42 gen2112 = Inr shuffled2112"
  by code_simp

lemma Shuffle_shuffled2112:
  "Shuffle mathRand 42 shuffled2112 = Inr (gen2112\<lparr>offsets := [1, 0]\<rparr>)"
  by code_simp

lemma Shuffle_gen2112_seed_0:
  "Shuffle mathRand 0 gen2112 = Inr (gen2112\<lparr>offsets := [0, 1]\<rparr>)"
  by code_simp

lemma Shuffle_again_seed_0:
  "Shuffle mathRand 0 (gen2112\<lparr>offsets := [0, 1]\<rparr>) = Inr (gen2112\<lparr>offsets := [0, 1]\<rparr>)"
  by code_simp

theorem Shuffle_twice_witness:
  "Shuffle mathRand 42 gen2112 = Inr shuffled2112
   \<and> Shuffle mathRand 42 shuffled2112 = Inr (gen2112\<lparr>offsets := [1, 0]\<rparr>)
   \<and> offsets (gen2112\<lparr>offsets := [1, 0]\<rparr>) = offsets shuffled2112
   \<and> (\<exists>perm. mset perm = mset [0..<length (leadersPartitions gen2112)]
         \<and> leadersPartitions shuffled2112 = map ((!) (leadersPartitions gen2112)) perm
         \<and> leadersPartitions (gen2112\<lparr>offsets := [1, 0]\<rparr>)
             = map ((!) (leadersPartitions shuffled2112)) perm)
   \<and> Shuffle mathRand 0 gen2112 = Inr (gen2112\<lparr>offsets := [0, 1]\<rparr>)
   \<and> Shuffle mathRand 0 (gen2112\<lparr>offsets := [0, 1]\<rparr>) = Inr (gen2112\<lparr>offsets := [0, 1]\<rparr>)
   \<and> distinct (leadersPartitions gen2112)
   \<and> leadersPartitions (gen2112\<lparr>offsets := [0, 1]\<rparr>) = leadersPartitions gen2112"
proof -
  have d: "distinct (leadersPartitions gen2112)" by code_simp
  from Shuffle_twice [OF Shuffle_gen2112 Shuffle_shuffled2112]
  have a: "offsets (gen2112\<lparr>offsets := [1, 0]\<rparr>) = offsets shuffled2112
   \<and> (\<exists>perm. mset perm = mset [0..<length (leadersPartitions gen2112)]
         \<and> leadersPartitions shuffled2112 = map ((!) (leadersPartitions gen2112)) perm
         \<and> leadersPartitions (gen2112\<lparr>offsets := [1, 0]\<rparr>)
             = map ((!) (leadersPartitions shuffled2112)) perm)"
    by blast
  from Shuffle_twice [OF Shuffle_gen2112_seed_0 Shuffle_again_seed_0] d
  have b: "leadersPartitions (gen2112\<lparr>offsets := [0, 1]\<rparr>) = leadersPartitions gen2112"
    by blast
  from a b d Shuffle_gen2112 Shuffle_shuffled2112 Shuffle_gen2112_seed_0 Shuffle_again_seed_0
  show ?thesis by blast
qed

theorem Shuffle_twice_counterexample:
  "Shuffle mathRand 42 gen2112 = Inr shuffled2112
   \<and> Shuffle mathRand 42 shuffled2112 = Inr (gen2112\<lparr>offsets := [1, 0]\<rparr>)
   \<and> map Leader (leadersPartitions shuffled2112) = [2, 1]
   \<and> map Leader (leadersPartitions (gen2112\<lparr>offsets := [1, 0]\<rparr>)) = [1, 2]
   \<and> shuffled2112 \<noteq> gen2112\<lparr>offsets := [1, 0]\<rparr>"
  by code_simp

section \<open>The partition sizes\<close>

lemma nonIncreasing_last_le:
  "nonIncreasing pre \<Longrightarrow> x \<in> set pre \<Longrightarrow> last pre \<le> x"
  unfolding nonIncreasing_def
  by (induction pre) (auto split: if_splits)

lemma nonIncreasing_snoc:
  "nonIncreasing pre \<Longrightarrow> (pre \<noteq> [] \<Longrightarrow> m \<le> last pre) \<Longrightarrow> nonIncreasing (pre @ [m])"
  using nonIncreasing_last_le [of pre]
  by (cases "pre = []") (auto simp: nonIncreasing_def sorted_wrt_append intro: order_trans)

lemma nonIncreasing_zeros:
  "nonIncreasing pre \<Longrightarrow> nonIncreasing (pre @ replicate z 0)"
proof -
  have "sorted_wrt (\<lambda>a b. b \<le> a) (replicate z (0 :: u8))"
    by (induction z) simp_all
  then show "nonIncreasing pre \<Longrightarrow> nonIncreasing (pre @ replicate z 0)"
    by (auto simp: nonIncreasing_def sorted_wrt_append)
qed

lemma nonIncreasing_found:
  assumes "nonIncreasing pre" and "pre \<noteq> [] \<Longrightarrow> n \<le> last pre"
  shows "nonIncreasing (pre @ n # replicate z 0)"
proof -
  have "nonIncreasing ((pre @ [n]) @ replicate z 0)"
    using assms by (intro nonIncreasing_zeros nonIncreasing_snoc)
  then show ?thesis by simp
qed

lemma totalSize_simps [simp]:
  "totalSize [] = 0" "totalSize (x # xs) = unat x + totalSize xs" "totalSize (xs @ ys) = totalSize xs + totalSize ys"
  "totalSize (replicate z 0) = 0"
  by (simp_all add: totalSize_def)

lemma unat_sub_mass:
  fixes m :: u8
  assumes "R \<le> 256" and "unat m < R" and "m \<noteq> 0"
  shows "unat ((of_nat R :: u8) - m) = R - unat m"
proof (cases "R = 256")
  case True
  then have "(of_nat R :: u8) = 0" by simp
  then have "unat ((of_nat R :: u8) - m) = unat (0 - m)" by simp
  also have "\<dots> = 256 - unat m"
  proof -
    have "unat m \<noteq> 0" using assms(3) by (simp add: unat_eq_0)
    moreover have "unat (0 - m) = (if unat m \<le> unat (0 :: u8) then unat (0 :: u8) - unat m
                                   else unat (0 :: u8) + 2 ^ size (0 :: u8) - unat m)"
      by (rule unat_sub_if_size)
    ultimately show ?thesis by (simp add: word_size)
  qed
  finally show ?thesis using True by simp
next
  case False
  then have R: "R < 256" using assms(1) by simp
  then have u: "unat (of_nat R :: u8) = R" by (simp add: unat_of_nat)
  then have "m \<le> of_nat R" using assms(2) by (simp add: word_le_nat_alt)
  then show ?thesis using u by (simp add: unat_sub)
qed

declare genPartitionSizesRecursive.simps [simp del] genPartitionSizesLoop.simps [simp del]

lemma loopOK_Nil: "loopOK pre z m N []"
  by (simp add: loopOK_def)

lemma loopOK_append:
  assumes r1: "recOK (pre @ [m]) z' N r1" and r2: "loopOK pre (Suc z') (m - 1) N r2"
    and m: "m \<noteq> 0"
  shows "loopOK pre (Suc z') m N (r1 @ r2)"
proof -
  have lt: "m - 1 < m" using m by (simp add: word_less_nat_alt unat_minus_one unat_gt_0)
  have disj: "set r1 \<inter> set r2 = {}"
  proof (rule ccontr)
    assume "set r1 \<inter> set r2 \<noteq> {}"
    then obtain v where v1: "v \<in> set r1" and v2: "v \<in> set r2" by blast
    from r1 v1 obtain suf where "v = (pre @ [m]) @ suf" by (auto simp: recOK_def)
    then have a: "v ! length pre = m" by (simp add: nth_append)
    from r2 v2 obtain y suf' where "v = pre @ y # suf'" and "y \<le> m - 1"
      by (auto simp: loopOK_def)
    then have "v ! length pre \<le> m - 1" by (simp add: nth_append)
    with a lt show False by simp
  qed
  have "\<exists>y suf. v = pre @ y # suf \<and> length suf = Suc z' \<and> y \<le> m" if "v \<in> set r1" for v
  proof -
    from r1 that obtain suf where "v = (pre @ [m]) @ suf" "length suf = Suc z'"
      by (auto simp: recOK_def)
    then show ?thesis by simp
  qed
  moreover have "\<exists>y suf. v = pre @ y # suf \<and> length suf = Suc z' \<and> y \<le> m" if "v \<in> set r2" for v
  proof -
    from r2 that obtain y suf where "v = pre @ y # suf" "length suf = Suc z'" "y \<le> m - 1"
      by (auto simp: loopOK_def)
    moreover have "m - 1 \<le> m" using lt by simp
    ultimately show ?thesis by (metis order_trans)
  qed
  ultimately show ?thesis
    using r1 r2 disj unfolding recOK_def loopOK_def
    by (simp only: distinct_append set_append) blast
qed

lemma loop_spec:
  fixes m :: u8
  assumes IH: "\<And>pre' x' n' z'. z = Suc z' \<Longrightarrow> n' \<noteq> 0 \<Longrightarrow> nonIncreasing pre' \<Longrightarrow> pre' \<noteq> []
                \<Longrightarrow> 1 \<le> hd pre' \<Longrightarrow>
              \<exists>r. genPartitionSizesRecursive (length pre') n' 1 (pre' @ x' # replicate z' 0) = Inr r
                   \<and> recOK pre' z' (totalSize pre' + unat n') r"
    and R: "of_nat R = n" "R \<le> 256"
    and pre: "nonIncreasing pre" "pre \<noteq> [] \<Longrightarrow> 1 \<le> hd pre"
  shows "unat m < R \<Longrightarrow> (pre \<noteq> [] \<Longrightarrow> m \<le> last pre) \<Longrightarrow>
         \<exists>r. genPartitionSizesLoop (length pre) n 1 (pre @ x # replicate z 0) m = Inr r
              \<and> loopOK pre z m (totalSize pre + R) r"
proof (induction "unat m" arbitrary: m x)
  case 0
  then have "m = 0" by (simp add: unat_eq_0)
  then show ?case
    by (simp add: genPartitionSizesLoop.simps [of _ _ _ _ 0] loopOK_Nil)
next
  case (Suc c)
  then have m: "m \<noteq> 0" by auto
  then have one: "1 \<le> m" "0 < m"
    by (simp_all add: word_le_nat_alt word_less_nat_alt unat_gt_0 Suc_le_eq)
  show ?case
  proof (cases z)
    case 0
    then show ?thesis
      by (simp add: genPartitionSizesLoop.simps [of _ _ _ "pre @ [x]"] loopOK_Nil)
  next
    case (Suc z')
    let ?s = "pre @ x # replicate z 0"
    have upd: "?s[length pre := m] = (pre @ [m]) @ 0 # replicate z' 0"
      by (simp add: Suc)
    have upd2: "?s[length pre := m] = pre @ m # replicate z 0"
      by simp
    have nm: "unat (n - m) = R - unat m"
      using unat_sub_mass [OF R(2) Suc.prems(1) m] R(1) by simp
    then have nm0: "n - m \<noteq> 0" using Suc.prems(1) by (auto simp: unat_eq_0)
    have ni: "nonIncreasing (pre @ [m])"
      using pre(1) Suc.prems(2) by (rule nonIncreasing_snoc)
    have hd: "1 \<le> hd (pre @ [m])"
      using pre(2) one by (cases pre) simp_all
    from IH [OF Suc nm0 ni _ hd, of 0] obtain r1 where
      r1: "genPartitionSizesRecursive (length pre + 1) (n - m) 1 (pre @ m # replicate z 0) = Inr r1"
      and ok1: "recOK (pre @ [m]) z' (totalSize pre + R) r1"
      using nm Suc.prems(1) by (auto simp: Suc)
    have c: "c = unat (m - 1)"
      using Suc.hyps(2) m by (simp add: unat_minus_one)
    have lt: "unat (m - 1) < R" using Suc.prems(1) c Suc.hyps(2) by simp
    have le: "m - 1 \<le> last pre" if "pre \<noteq> []"
      using Suc.prems(2) [OF that] m
      by (simp add: word_le_nat_alt unat_minus_one)
    from Suc.hyps(1) [OF c lt le, of m] obtain r2 where
      r2: "genPartitionSizesLoop (length pre) n 1 (pre @ m # replicate z 0) (m - 1) = Inr r2"
      and ok2: "loopOK pre z (m - 1) (totalSize pre + R) r2"
      by blast
    have cond: "length pre + 1 < length ?s" by (simp add: Suc)
    have "genPartitionSizesLoop (length pre) n 1 ?s m = Inr (r1 @ r2)"
      using cond one m r1 r2
      by (subst genPartitionSizesLoop.simps) (simp add: upd2 del: list_update_append1 list_update_length)
    moreover have "loopOK pre z m (totalSize pre + R) (r1 @ r2)"
      using ok1 ok2 m unfolding Suc by (rule loopOK_append)
    ultimately show ?thesis by blast
  qed
qed

lemma recOK_found:
  assumes ok: "loopOK pre z m N r" and m: "m < n"
    and s: "nonIncreasing (pre @ n # replicate z 0)" "totalSize (pre @ n # replicate z 0) = N"
      "1 \<le> hd (pre @ n # replicate z 0)"
  shows "recOK pre z N ((pre @ n # replicate z 0) # r)"
proof -
  have "pre @ n # replicate z 0 \<notin> set r"
  proof
    assume "pre @ n # replicate z 0 \<in> set r"
    with ok obtain y suf where "pre @ n # replicate z 0 = pre @ y # suf" "y \<le> m"
      unfolding loopOK_def by blast
    then have "n \<le> m" by simp
    with m show False by simp
  qed
  moreover have "\<exists>suf. v = pre @ suf \<and> length suf = Suc z" if "v \<in> set r" for v
  proof -
    from ok that obtain y suf where "v = pre @ y # suf" "length suf = z"
      unfolding loopOK_def by blast
    then show ?thesis by simp
  qed
  moreover have "\<exists>suf. pre @ n # replicate z 0 = pre @ suf \<and> length suf = Suc z"
    by simp
  ultimately show ?thesis
    using ok s unfolding recOK_def loopOK_def
    by (simp only: distinct.simps set_simps) blast
qed

lemma recOK_rest:
  assumes ok: "loopOK pre z m N r"
  shows "recOK pre z N r"
proof -
  have "\<exists>suf. v = pre @ suf \<and> length suf = Suc z" if "v \<in> set r" for v
  proof -
    from ok that obtain y suf where "v = pre @ y # suf" "length suf = z"
      unfolding loopOK_def by blast
    then show ?thesis by simp
  qed
  then show ?thesis using ok unfolding recOK_def loopOK_def by blast
qed

lemma rec_spec:
  "n \<noteq> 0 \<Longrightarrow> nonIncreasing pre \<Longrightarrow> (pre \<noteq> [] \<Longrightarrow> 1 \<le> hd pre) \<Longrightarrow>
   \<exists>r. genPartitionSizesRecursive (length pre) n 1 (pre @ x # replicate z 0) = Inr r
        \<and> recOK pre z (totalSize pre + unat n) r"
proof (induction z arbitrary: pre x n rule: less_induct)
  case (less z)
  let ?s = "pre @ n # replicate z 0"
  define m where "m = (if 0 < length pre then min (n - 1) (last pre) else n - 1)"
  have n1: "unat (n - 1) < unat n"
    using less.prems(1) by (simp add: unat_minus_one unat_gt_0)
  have mle: "m \<le> n - 1" by (simp add: m_def)
  then have mlt: "unat m < unat n" using n1 by (simp add: word_le_nat_alt)
  then have mn: "m < n" by (simp add: word_less_nat_alt)
  have mlast: "m \<le> last pre" if "pre \<noteq> []" using that by (simp add: m_def)
  have R: "of_nat (unat n) = n" "unat n \<le> 256"
    using unsigned_less [of n, where 'a = nat] by simp_all
  have IH: "\<exists>r. genPartitionSizesRecursive (length pre') n' 1 (pre' @ x' # replicate z' 0) = Inr r
                 \<and> recOK pre' z' (totalSize pre' + unat n') r"
    if "z = Suc z'" "n' \<noteq> 0" "nonIncreasing pre'" "pre' \<noteq> []" "1 \<le> hd pre'"
    for pre' x' n' z'
    using less.IH [of z' n' pre' x'] that by simp
  from loop_spec [of z, OF IH R less.prems(2) less.prems(3) mlt mlast, of n]
  obtain r where
    loop: "genPartitionSizesLoop (length pre) n 1 ?s m = Inr r"
    and ok: "loopOK pre z m (totalSize pre + unat n) r"
    by blast
  have prev: "?s ! (length pre - Suc 0) = last pre" if "pre \<noteq> []"
    using that by (simp add: nth_append last_conv_nth)
  have one: "1 \<le> n"
    using less.prems(1) by (simp add: word_le_nat_alt unat_gt_0 Suc_le_eq)
  have hd: "1 \<le> hd ?s"
    using less.prems(3) one by (cases pre) simp_all
  have unfold: "genPartitionSizesRecursive (length pre) n 1 (pre @ x # replicate z 0)
        = Inr ((if pre = [] \<or> n \<le> last pre then [?s] else []) @ r)"
  proof (cases "pre = []")
    case True
    then show ?thesis using loop
      by (subst genPartitionSizesRecursive.simps) (simp add: Let_def m_def)
  next
    case False
    then show ?thesis using loop prev
      by (subst genPartitionSizesRecursive.simps) (simp add: Let_def m_def)
  qed
  show ?case
  proof (cases "pre = [] \<or> n \<le> last pre")
    case True
    then have ni: "nonIncreasing ?s"
      using less.prems(2) by (intro nonIncreasing_found) auto
    have "recOK pre z (totalSize pre + unat n) (?s # r)"
      using ok mn ni _ hd by (rule recOK_found) simp
    moreover have "genPartitionSizesRecursive (length pre) n 1 (pre @ x # replicate z 0) = Inr (?s # r)"
      using True unfold by auto
    ultimately show ?thesis by blast
  next
    case False
    then have "genPartitionSizesRecursive (length pre) n 1 (pre @ x # replicate z 0) = Inr r"
      using unfold by auto
    moreover have "recOK pre z (totalSize pre + unat n) r"
      using ok by (rule recOK_rest)
    ultimately show ?thesis by blast
  qed
qed

lemma genPartitionSizes_spec:
  assumes n: "n \<noteq> 0" and k: "1 \<le> k"
  shows "\<exists>sizes. genPartitionSizes n k 1 = Inr sizes \<and> distinct sizes
           \<and> (\<forall>s \<in> set sizes. length s = unat k \<and> nonIncreasing s
                  \<and> totalSize s = unat n \<and> 1 \<le> hd s)"
proof -
  from k obtain z where z: "unat k = Suc z"
    by (cases "unat k") (simp_all add: word_le_nat_alt)
  have "nonIncreasing []" by (simp add: nonIncreasing_def)
  from rec_spec [OF n this, of 0 z] obtain r where
    r: "genPartitionSizesRecursive 0 n 1 (0 # replicate z 0) = Inr r"
    and ok: "recOK [] z (unat n) r"
    by auto
  have "length s = unat k \<and> nonIncreasing s \<and> totalSize s = unat n \<and> 1 \<le> hd s"
    if "s \<in> set r" for s
    using ok that by (auto simp: recOK_def z)
  moreover have "distinct r" using ok by (simp add: recOK_def)
  ultimately show ?thesis
    using r by (simp add: genPartitionSizes_def z)
qed

lemma genPartitionSizes_zero:
  assumes k: "1 \<le> k"
  shows "\<exists>sizes. genPartitionSizes 0 k 1 = Inr sizes
           \<and> (\<forall>s \<in> set sizes. length s = unat k \<and> (totalSize s = 0 \<or> totalSize s = 256))"
proof -
  from k obtain z where z: "unat k = Suc z"
    by (cases "unat k") (simp_all add: word_le_nat_alt)
  have ni: "nonIncreasing []" by (simp add: nonIncreasing_def)
  have IH: "\<exists>r. genPartitionSizesRecursive (length pre') n' 1 (pre' @ x' # replicate z' 0) = Inr r
                 \<and> recOK pre' z' (totalSize pre' + unat n') r"
    if "z = Suc z'" "n' \<noteq> 0" "nonIncreasing pre'" "pre' \<noteq> []" "1 \<le> hd pre'"
    for pre' x' n' and z' :: nat
    using rec_spec [of n' pre' x' z'] that by simp
  have "\<exists>r. genPartitionSizesLoop (length ([] :: u8 list)) 0 1 ([] @ 0 # replicate z 0) 255 = Inr r
              \<and> loopOK [] z 255 (totalSize [] + 256) r"
    by (rule loop_spec [of z 256 0 "[]" 255 0, OF IH _ _ ni]) simp_all
  then obtain r where
    loop: "genPartitionSizesLoop 0 0 1 (0 # replicate z 0) 255 = Inr r"
    and ok: "loopOK [] z 255 256 r"
    by auto
  have m1: "(- 1 :: u8) = 255" by simp
  have "genPartitionSizes 0 k 1 = Inr ((0 # replicate z 0) # r)"
    using loop
    by (simp add: genPartitionSizes_def z genPartitionSizesRecursive.simps [of 0 0] Let_def m1)
  moreover have "length s = unat k \<and> totalSize s = 256" if "s \<in> set r" for s
    using ok that by (auto simp: loopOK_def z)
  moreover have "length (0 # replicate z (0 :: u8)) = unat k \<and> totalSize (0 # replicate z 0) = 0"
    by (simp add: z)
  ultimately show ?thesis by auto
qed

lemma genPartitionSizes_total:
  assumes k: "1 \<le> k" and T: "1 \<le> T" "T \<le> 510"
  shows "\<exists>sizes. genPartitionSizes (of_nat T) k 1 = Inr sizes
           \<and> (\<forall>s \<in> set sizes. length s = unat k
                  \<and> (totalSize s = T \<or> totalSize s + 256 = T))"
proof (cases "T = 256")
  case True
  then have z: "(of_nat T :: u8) = 0" by simp
  from genPartitionSizes_zero [OF k] obtain sizes where
    a: "genPartitionSizes 0 k 1 = Inr sizes"
    and b: "\<forall>s \<in> set sizes. length s = unat k \<and> (totalSize s = 0 \<or> totalSize s = 256)"
    by blast
  from a have "genPartitionSizes (of_nat T) k 1 = Inr sizes"
    by (simp only: z)
  moreover from b have "\<forall>s \<in> set sizes. length s = unat k
                  \<and> (totalSize s = T \<or> totalSize s + 256 = T)"
    using True by auto
  ultimately show ?thesis by blast
next
  case False
  have u: "unat (of_nat T :: u8) = T mod 256" by (simp add: unat_of_nat)
  have "T mod 256 \<noteq> 0" using T False by (auto simp: mod_eq_0_iff_dvd dvd_def)
  then have n: "(of_nat T :: u8) \<noteq> 0" using u by (metis unat_0)
  have "T mod 256 = T \<or> T mod 256 + 256 = T"
  proof (cases "T < 256")
    case True then show ?thesis by simp
  next
    case False
    then have "T mod 256 = (T - 256) mod 256" by (simp add: le_mod_geq)
    also have "\<dots> = T - 256" using T by simp
    finally show ?thesis using False by simp
  qed
  then show ?thesis using genPartitionSizes_spec [OF n k] u by auto
qed

text \<open>
  C8. For \<open>n \<ge> 1\<close>, \<open>k \<ge> 1\<close> and \<open>minSize = 1\<close>, \<open>genPartitionSizes\<close> returns, and
  every vector it enumerates has \<open>k\<close> entries, is non-increasing, sums to \<open>n\<close> (as
  natural numbers) and has a first entry of at least \<open>minSize\<close>; no vector is
  enumerated twice.
\<close>

theorem genPartitionSizes_vectors:
  assumes "1 \<le> n" and "1 \<le> k"
  shows "\<exists>sizes. genPartitionSizes n k 1 = Inr sizes \<and> distinct sizes
           \<and> (\<forall>s \<in> set sizes. length s = unat k \<and> sorted_wrt (\<lambda>a b. b \<le> a) s
                  \<and> sum_list (map unat s) = unat n \<and> 1 \<le> s ! 0)"
proof -
  from assms(1) have n: "n \<noteq> 0" by auto
  from assms(2) have k: "0 < unat k" by (simp add: word_le_nat_alt)
  from genPartitionSizes_spec [OF n assms(2)] obtain sizes where
    sizes: "genPartitionSizes n k 1 = Inr sizes" "distinct sizes"
    and ok: "\<forall>s \<in> set sizes. length s = unat k \<and> nonIncreasing s
                  \<and> totalSize s = unat n \<and> 1 \<le> hd s"
    by blast
  have "length s = unat k \<and> sorted_wrt (\<lambda>a b. b \<le> a) s
          \<and> sum_list (map unat s) = unat n \<and> 1 \<le> s ! 0" if "s \<in> set sizes" for s
  proof -
    from ok that have "length s = unat k" "nonIncreasing s" "totalSize s = unat n" "1 \<le> hd s"
      by simp_all
    then show ?thesis
      using k by (cases s) (simp_all add: nonIncreasing_def totalSize_def)
  qed
  with sizes show ?thesis by blast
qed

theorem genPartitionSizes_vectors_witness:
  "(1 :: u8) \<le> 3 \<and> (1 :: u8) \<le> 2
   \<and> genPartitionSizes 3 2 1 = Inr [[3, 0], [2, 1]]
   \<and> distinct [[3, 0], [2, 1 :: u8]]
   \<and> sum_list (map unat [3, 0 :: u8]) = unat (3 :: u8)
   \<and> sum_list (map unat [2, 1 :: u8]) = unat (3 :: u8)
   \<and> sorted_wrt (\<lambda>a b. b \<le> a) [3, 0 :: u8] \<and> sorted_wrt (\<lambda>a b. b \<le> a) [2, 1 :: u8]"
proof -
  have h: "(1 :: u8) \<le> 3" "(1 :: u8) \<le> 2" by simp_all
  have ev: "genPartitionSizes 3 2 1 = Inr [[3, 0], [2, 1]]" by code_simp
  from genPartitionSizes_vectors [OF h] ev
  have "distinct [[3, 0], [2, 1 :: u8]]
        \<and> (\<forall>s \<in> set [[3, 0], [2, 1 :: u8]]. length s = unat (2 :: u8)
               \<and> sorted_wrt (\<lambda>a b. b \<le> a) s
               \<and> sum_list (map unat s) = unat (3 :: u8) \<and> 1 \<le> s ! 0)"
    by auto
  then show ?thesis using h ev by simp
qed

section \<open>The partition scenarios\<close>

lemma members_simps [simp]: "members None = {}" "members (Some S) = S"
  by (simp_all add: members_def)

lemma initPartitions_replicate:
  "initPartitions rest (length pre) (pre @ replicate (length rest) None)
     = Inr (pre @ map (\<lambda>s. if 0 < s then Some {} else None) rest)"
proof (induction rest arbitrary: pre)
  case Nil
  show ?case by simp
next
  case (Cons s rest)
  have a: "initPartitions rest (length pre + 1) ((pre @ [y]) @ replicate (length rest) None)
         = Inr ((pre @ [y]) @ map (\<lambda>s. if 0 < s then Some {} else None) rest)" for y
    using Cons.IH [of "pre @ [y]"] by simp
  show ?case
  proof (cases "0 < s")
    case True
    then show ?thesis using a [of "Some {}"] by simp
  next
    case False
    then show ?thesis using a [of None] by simp
  qed
qed

lemma placed_start:
  "placed sz sz (map (\<lambda>s. if 0 < s then Some {} else None) sz) {}"
  by (auto simp: placed_def)

lemma placed_addTwin:
  assumes pl: "placed sz cap ps used"
    and a: "unat a < length sz" "cap ! unat a \<noteq> 0"
    and x: "twin < length twins" "twins ! twin \<notin> used"
  shows "\<exists>ps'. addTwin twins a twin ps = Inr ps'
          \<and> placed sz (cap[unat a := cap ! unat a - 1]) ps' (insert (twins ! twin) used)"
proof -
  let ?a = "unat a" and ?x = "twins ! twin"
  from pl a(1) have inv: "finite (members (ps ! ?a))"
    "unat (cap ! ?a) + card (members (ps ! ?a)) = unat (sz ! ?a)"
    "0 < sz ! ?a \<longrightarrow> ps ! ?a \<noteq> None"
    and len: "length cap = length sz" "length ps = length sz"
    by (auto simp: placed_def)
  have "0 < unat (cap ! ?a)" using a(2) by (simp add: unat_gt_0)
  then have "0 < unat (sz ! ?a)" using inv(2) by simp
  then have "0 < sz ! ?a" by (simp add: word_less_nat_alt)
  with inv(3) obtain S where S: "ps ! ?a = Some S" by auto
  have sub: "members (ps ! j) \<subseteq> used" if "j < length sz" for j
    using pl that by (auto simp: placed_def)
  have notin: "?x \<notin> members (ps ! j)" if "j < length sz" for j
    using sub [OF that] x(2) by blast
  let ?ps = "ps[?a := Some (insert ?x S)]"
  have res: "addTwin twins a twin ps = Inr ?ps"
    using a(1) x(1) len S by (simp add: addTwin_def Add_def)
  have mem: "members (?ps ! j) = (if j = ?a then insert ?x (members (ps ! j)) else members (ps ! j))"
    if "j < length sz" for j
    using that len S by (simp add: nth_list_update)
  have cap: "unat ((cap[?a := cap ! ?a - 1]) ! j)
             = (if j = ?a then unat (cap ! j) - 1 else unat (cap ! j))"
    if "j < length sz" for j
    using that len a(2) by (simp add: nth_list_update unat_minus_one)
  have "placed sz (cap[?a := cap ! ?a - 1]) ?ps (insert ?x used)"
    unfolding placed_def
  proof (intro conjI allI impI)
    show "length (cap[?a := cap ! ?a - 1]) = length sz" using len by simp
    show "length ?ps = length sz" using len by simp
  next
    fix j assume j: "j < length sz"
    show "finite (members (?ps ! j))"
      using pl j by (simp add: mem placed_def)
    show "unat ((cap[?a := cap ! ?a - 1]) ! j) + card (members (?ps ! j)) = unat (sz ! j)"
    proof (cases "j = ?a")
      case True
      have "card (insert ?x (members (ps ! ?a))) = Suc (card (members (ps ! ?a)))"
        using inv(1) notin [OF a(1)] by simp
      then show ?thesis
        using True inv(2) \<open>0 < unat (cap ! ?a)\<close> j by (simp add: mem cap)
    next
      case False
      then show ?thesis using pl j by (simp add: mem cap placed_def)
    qed
    show "?ps ! j \<noteq> None" if "0 < sz ! j"
      using that pl j len by (cases "j = ?a") (auto simp: placed_def nth_list_update)
  next
    fix i j assume ij: "i < length sz" "j < length sz" "i \<noteq> j"
    have "members (ps ! i) \<inter> members (ps ! j) = {}"
      using pl ij by (simp add: placed_def)
    then show "members (?ps ! i) \<inter> members (?ps ! j) = {}"
      using ij notin [of i] notin [of j] by (auto simp: mem)
  next
    have "(\<Union>j < length sz. members (ps ! j)) = used"
      using pl by (simp add: placed_def)
    then have "(\<Union>j < length sz. members (?ps ! j)) = insert ?x used"
      using a(1) by (auto simp: mem split: if_splits)
    then show "(\<Union>j < length sz. members (?ps ! j)) = insert ?x used" .
  qed
  with res show ?thesis by blast
qed

lemma take_Suc_set:
  "i < length xs \<Longrightarrow> set (take (Suc i) xs) = insert (xs ! i) (set (take i xs))"
  by (simp add: take_Suc_conv_app_nth)

lemma nth_notin_take:
  "distinct xs \<Longrightarrow> i < length xs \<Longrightarrow> xs ! i \<notin> set (take i xs)"
  by (auto simp: in_set_conv_nth nth_eq_iff_index_eq)

lemma placed_placeTwins:
  assumes "distinct twins"
  shows "isValidLoop ta sz cap \<Longrightarrow> placed sz cap ps (set (take twin twins)) \<Longrightarrow>
         twin + 2 * length ta \<le> length twins \<Longrightarrow>
         \<exists>ps' cap'. placeTwins twins ta twin ps = Inr ps'
            \<and> placed sz cap' ps' (set (take (twin + 2 * length ta) twins))"
proof (induction ta arbitrary: cap ps twin)
  case Nil
  then show ?case by auto
next
  case (Cons ab ta)
  obtain a b where ab: "ab = (a, b)" by (cases ab)
  let ?cap1 = "cap[unat a := cap ! unat a - 1]"
  let ?cap2 = "?cap1[unat b := ?cap1 ! unat b - 1]"
  from Cons.prems(1) have a: "unat a < length sz" "cap ! unat a \<noteq> 0"
    and b: "unat b < length sz" "?cap1 ! unat b \<noteq> 0"
    and rest: "isValidLoop ta sz ?cap2"
    by (auto simp: ab Let_def split: if_splits)
  have t1: "twin < length twins" and t2: "Suc twin < length twins"
    using Cons.prems(3) by simp_all
  from placed_addTwin [OF Cons.prems(2) a t1 nth_notin_take [OF assms t1]]
  obtain ps1 where ps1: "addTwin twins a twin ps = Inr ps1"
    and pl1: "placed sz ?cap1 ps1 (set (take (Suc twin) twins))"
    by (auto simp: take_Suc_set [OF t1])
  from placed_addTwin [OF pl1 b t2 nth_notin_take [OF assms t2]]
  obtain ps2 where ps2: "addTwin twins b (Suc twin) ps1 = Inr ps2"
    and pl2: "placed sz ?cap2 ps2 (set (take (twin + 2) twins))"
    by (auto simp: take_Suc_set [OF t2])
  have "twin + 2 + 2 * length ta \<le> length twins" using Cons.prems(3) by simp
  from Cons.IH [OF rest pl2 this] obtain ps' cap' where
    "placeTwins twins ta (twin + 2) ps2 = Inr ps'"
    "placed sz cap' ps' (set (take (twin + 2 + 2 * length ta) twins))"
    by blast
  then show ?case using ps1 ps2 by (auto simp: ab add.assoc)
qed

declare fillPartition.simps [simp del] fillNodes.simps [simp del]

lemma fillPartition_condition:
  fixes sizeK :: u8
  assumes "c \<le> unat sizeK"
  shows "0 < sizeK - of_nat c \<longleftrightarrow> c < unat sizeK"
proof -
  have c: "c < 256" using assms unsigned_less [of sizeK, where 'a = nat] by simp
  then have u: "unat (of_nat c :: u8) = c" by (simp add: unat_of_nat)
  then have "(of_nat c :: u8) \<le> sizeK" using assms by (simp add: word_le_nat_alt)
  then have "unat (sizeK - of_nat c) = unat sizeK - c" using u by (simp add: unat_sub)
  then show ?thesis by (simp add: word_less_nat_alt)
qed

lemma fillPartition_spec:
  assumes "distinct nodes"
  shows "finite (members p) \<Longrightarrow> card (members p) + d = unat sizeK \<Longrightarrow> (0 < d \<Longrightarrow> p \<noteq> None) \<Longrightarrow>
         node + d \<le> length nodes \<Longrightarrow> members p \<inter> set (drop node nodes) = {} \<Longrightarrow>
         \<exists>p'. fillPartition nodes sizeK p node = Inr (p', node + d)
              \<and> members p' = members p \<union> set (take d (drop node nodes))
              \<and> finite (members p') \<and> card (members p') = unat sizeK"
proof (induction d arbitrary: p node)
  case 0
  have "lenNodeSet p = card (members p)"
    by (cases p) (simp_all add: lenNodeSet_def)
  then have "\<not> 0 < sizeK - of_nat (lenNodeSet p)"
    using 0 by (simp add: fillPartition_condition)
  then have "fillPartition nodes sizeK p node = Inr (p, node)"
    by (subst fillPartition.simps) simp
  then show ?case using 0 by simp
next
  case (Suc d)
  from Suc.prems(3) obtain S where p: "p = Some S" by auto
  have len: "lenNodeSet p = card S" by (simp add: p lenNodeSet_def)
  have fin: "finite S" using Suc.prems(1) p by simp
  have "card S < unat sizeK" using Suc.prems(2) p by simp
  then have "0 < sizeK - of_nat (card S)"
    by (simp add: fillPartition_condition)
  then have cond: "0 < sizeK - of_nat (lenNodeSet p)"
    by (simp only: len)
  have node: "node < length nodes" using Suc.prems(4) by simp
  let ?x = "nodes ! node"
  have dr: "drop node nodes = ?x # drop (Suc node) nodes"
    using node by (simp add: Cons_nth_drop_Suc)
  have xS: "?x \<notin> S" using Suc.prems(5) p dr by auto
  have xrest: "?x \<notin> set (drop (Suc node) nodes)"
    using assms dr by (metis distinct.simps(2) distinct_drop)
  let ?p = "Some (insert ?x S)"
  have step: "fillPartition nodes sizeK p node = fillPartition nodes sizeK ?p (node + 1)"
    using cond node by (subst fillPartition.simps) (simp add: p Add_def)
  have "\<exists>p'. fillPartition nodes sizeK ?p (Suc node) = Inr (p', Suc node + d)
              \<and> members p' = members ?p \<union> set (take d (drop (Suc node) nodes))
              \<and> finite (members p') \<and> card (members p') = unat sizeK"
  proof (rule Suc.IH)
    show "finite (members ?p)" using fin by simp
    show "card (members ?p) + d = unat sizeK"
      using Suc.prems(2) p fin xS by simp
    show "?p \<noteq> None" by simp
    show "Suc node + d \<le> length nodes" using Suc.prems(4) by simp
    show "members ?p \<inter> set (drop (Suc node) nodes) = {}"
      using Suc.prems(5) p dr xrest by auto
  qed
  then obtain p' where p': "fillPartition nodes sizeK ?p (Suc node) = Inr (p', Suc node + d)"
    "members p' = members ?p \<union> set (take d (drop (Suc node) nodes))"
    "finite (members p')" "card (members p') = unat sizeK"
    by blast
  have "members p' = members p \<union> set (take (Suc d) (drop node nodes))"
    using p'(2) p by (simp add: dr)
  then show ?case using p' step by simp
qed

lemma filled_step:
  assumes dn: "distinct nodes" and tw: "tw \<inter> set nodes = {}"
    and f: "filled tw nodes sz ps kk node" and kk: "kk < length sz"
  shows "\<exists>p' d. fillPartition nodes (sz ! kk) (ps ! kk) node = Inr (p', node + d)
          \<and> filled tw nodes sz (ps[kk := p']) (Suc kk) (node + d)"
proof -
  let ?d = "unat (sz ! kk) - card (members (ps ! kk))"
  let ?N = "set (take ?d (drop node nodes))"
  from f have len: "length ps = length sz"
    and inv0: "\<forall>j < length sz. finite (members (ps ! j)) \<and> card (members (ps ! j)) \<le> unat (sz ! j)
            \<and> (card (members (ps ! j)) < unat (sz ! j) \<longrightarrow> ps ! j \<noteq> None)"
    and full0: "\<forall>j < length sz. j < kk \<longrightarrow> card (members (ps ! j)) = unat (sz ! j)"
    and disj0: "\<forall>i < length sz. \<forall>j < length sz. i \<noteq> j
                 \<longrightarrow> members (ps ! i) \<inter> members (ps ! j) = {}"
    and un: "(\<Union>j < length sz. members (ps ! j)) = tw \<union> set (take node nodes)"
    and sum: "node + (\<Sum>j = kk..<length sz. unat (sz ! j) - card (members (ps ! j))) = length nodes"
    unfolding filled_def by simp_all
  note inv = inv0 [rule_format] and full = full0 [rule_format] and disj = disj0 [rule_format]
  have split: "(\<Sum>j = kk..<length sz. unat (sz ! j) - card (members (ps ! j)))
        = ?d + (\<Sum>j = Suc kk..<length sz. unat (sz ! j) - card (members (ps ! j)))"
    using kk by (simp add: sum.atLeast_Suc_lessThan)
  have sub: "members (ps ! j) \<subseteq> tw \<union> set (take node nodes)" if "j < length sz" for j
    using un that by blast
  have away: "(tw \<union> set (take node nodes)) \<inter> set (drop node nodes) = {}"
  proof -
    have "set (take node nodes) \<inter> set (drop node nodes) = {}"
      using dn by (simp add: set_take_disj_set_drop_if_distinct)
    moreover have "set (drop node nodes) \<subseteq> set nodes" by (rule set_drop_subset)
    ultimately show ?thesis using tw by blast
  qed
  have "\<exists>p'. fillPartition nodes (sz ! kk) (ps ! kk) node = Inr (p', node + ?d)
              \<and> members p' = members (ps ! kk) \<union> ?N
              \<and> finite (members p') \<and> card (members p') = unat (sz ! kk)"
  proof (rule fillPartition_spec [OF dn])
    show "finite (members (ps ! kk))" using inv [OF kk] by simp
    show "card (members (ps ! kk)) + ?d = unat (sz ! kk)" using inv [OF kk] by simp
    show "ps ! kk \<noteq> None" if "0 < ?d" using inv [OF kk] that by simp
    show "node + ?d \<le> length nodes" using sum split by simp
    show "members (ps ! kk) \<inter> set (drop node nodes) = {}"
      using sub [OF kk] away by blast
  qed
  then obtain p' where p': "fillPartition nodes (sz ! kk) (ps ! kk) node = Inr (p', node + ?d)"
    "members p' = members (ps ! kk) \<union> ?N" "finite (members p')"
    "card (members p') = unat (sz ! kk)"
    by blast
  let ?ps = "ps[kk := p']"
  have mem: "members (?ps ! j) = (if j = kk then members (ps ! kk) \<union> ?N else members (ps ! j))"
    if "j < length sz" for j
    using that len p'(2) by (simp add: nth_list_update)
  have N: "?N \<subseteq> set (drop node nodes)" by (rule set_take_subset)
  have atkk: "?ps ! kk = p'" using kk len by simp
  have other: "?ps ! j = ps ! j" if "j \<noteq> kk" for j using that by simp
  have "filled tw nodes sz ?ps (Suc kk) (node + ?d)"
    unfolding filled_def
  proof (intro conjI allI impI)
    show "length ?ps = length sz" using len by simp
  next
    fix j assume j: "j < length sz"
    have "finite (members (?ps ! j)) \<and> card (members (?ps ! j)) \<le> unat (sz ! j)
          \<and> (card (members (?ps ! j)) < unat (sz ! j) \<longrightarrow> ?ps ! j \<noteq> None)
          \<and> (j < Suc kk \<longrightarrow> card (members (?ps ! j)) = unat (sz ! j))"
    proof (cases "j = kk")
      case True
      show ?thesis unfolding True atkk using p'(3,4) by simp
    next
      case False
      have "j < Suc kk \<longrightarrow> j < kk" using False by simp
      then show ?thesis unfolding other [OF False]
        using inv [OF j] full [OF j] by blast
    qed
    note at_j = this
    show "finite (members (?ps ! j))" using at_j by blast
    show "card (members (?ps ! j)) \<le> unat (sz ! j)" using at_j by blast
    show "?ps ! j \<noteq> None" if "card (members (?ps ! j)) < unat (sz ! j)"
      using at_j that by blast
    show "card (members (?ps ! j)) = unat (sz ! j)" if "j < Suc kk"
      using at_j that by blast
  next
    fix i j assume ij: "i < length sz" "j < length sz" "i \<noteq> j"
    have fresh: "members p' \<inter> members (ps ! l) = {}" if "l < length sz" "l \<noteq> kk" for l
    proof -
      have "members (ps ! kk) \<inter> members (ps ! l) = {}"
        using disj [OF kk that(1)] that(2) by blast
      moreover have "?N \<inter> members (ps ! l) = {}"
        using sub [OF that(1)] away N by blast
      ultimately show ?thesis unfolding p'(2) by blast
    qed
    consider "i = kk" "j \<noteq> kk" | "j = kk" "i \<noteq> kk" | "i \<noteq> kk" "j \<noteq> kk"
      using ij(3) by blast
    then show "members (?ps ! i) \<inter> members (?ps ! j) = {}"
    proof cases
      case 1
      show ?thesis unfolding 1(1) atkk other [OF 1(2)] using fresh [OF ij(2) 1(2)] .
    next
      case 2
      show ?thesis unfolding 2(1) atkk other [OF 2(2)] using fresh [OF ij(1) 2(2)] by blast
    next
      case 3
      show ?thesis unfolding other [OF 3(1)] other [OF 3(2)] using disj [OF ij] .
    qed
  next
    have "(\<Union>j < length sz. members (?ps ! j)) = (\<Union>j < length sz. members (ps ! j)) \<union> ?N"
      using kk by (auto simp: mem split: if_splits)
    also have "\<dots> = tw \<union> (set (take node nodes) \<union> ?N)" using un by blast
    also have "set (take node nodes) \<union> ?N = set (take (node + ?d) nodes)"
      by (simp add: take_add)
    finally show "(\<Union>j < length sz. members (?ps ! j)) = tw \<union> set (take (node + ?d) nodes)" .
  next
    have "(\<Sum>j = Suc kk..<length sz. unat (sz ! j) - card (members (?ps ! j)))
          = (\<Sum>j = Suc kk..<length sz. unat (sz ! j) - card (members (ps ! j)))"
      by (rule sum.cong) (simp_all add: mem)
    then show "node + ?d + (\<Sum>j = Suc kk..<length sz. unat (sz ! j) - card (members (?ps ! j)))
               = length nodes"
      using sum split by simp
  qed
  with p'(1) show ?thesis by blast
qed

lemma fillNodes_spec:
  assumes dn: "distinct nodes" and tw: "tw \<inter> set nodes = {}"
  shows "filled tw nodes sz ps kk node \<Longrightarrow>
         \<exists>ps'. fillNodes nodes sz ps kk node = Inr ps'
               \<and> filled tw nodes sz ps' (length sz) (length nodes)"
proof (induction "length sz - kk" arbitrary: ps kk node)
  case 0
  then have kk: "length sz \<le> kk" by simp
  from "0.prems" have len: "length ps = length sz"
    and sum: "node + (\<Sum>j = kk..<length sz. unat (sz ! j) - card (members (ps ! j))) = length nodes"
    unfolding filled_def by simp_all
  have node: "node = length nodes" using sum kk by simp
  have "fillNodes nodes sz ps kk node = Inr ps"
    using kk len by (subst fillNodes.simps) simp
  moreover have "filled tw nodes sz ps (length sz) (length nodes)"
    using "0.prems" kk unfolding filled_def node by simp
  ultimately show ?case by blast
next
  case (Suc c)
  then have kk: "kk < length sz" by simp
  from Suc.prems have len: "length ps = length sz"
    unfolding filled_def by simp
  from filled_step [OF dn tw Suc.prems kk] obtain p' d where
    p': "fillPartition nodes (sz ! kk) (ps ! kk) node = Inr (p', node + d)"
    and f: "filled tw nodes sz (ps[kk := p']) (Suc kk) (node + d)"
    by blast
  have "c = length sz - Suc kk" using Suc.hyps(2) by simp
  from Suc.hyps(1) [OF this f] obtain ps' where
    ps': "fillNodes nodes sz (ps[kk := p']) (Suc kk) (node + d) = Inr ps'"
    and f': "filled tw nodes sz ps' (length sz) (length nodes)"
    by blast
  have "fillNodes nodes sz ps kk node = Inr ps'"
    using kk len p' ps' by (subst fillNodes.simps) simp
  with f' show ?case by blast
qed

lemma sum_list_unat_nth:
  "sum_list (map unat (sz :: u8 list)) = (\<Sum>j < length sz. unat (sz ! j))"
proof -
  have "sum_list (map unat sz) = (\<Sum>j = 0..<length (map unat sz). map unat sz ! j)"
    by (rule sum_list_sum_nth)
  also have "\<dots> = (\<Sum>j = 0..<length sz. unat (sz ! j))"
    by (rule sum.cong) simp_all
  finally show ?thesis by (simp add: atLeast0LessThan)
qed

lemma placed_filled:
  assumes pl: "placed sz cap ps (set twins)" and dt: "distinct twins"
    and tot: "totalSize sz = length twins + length nodes"
  shows "filled (set twins) nodes sz ps 0 0"
proof -
  from pl have len: "length ps = length sz"
    and inv0: "\<forall>j < length sz. finite (members (ps ! j))
            \<and> unat (cap ! j) + card (members (ps ! j)) = unat (sz ! j)
            \<and> (0 < sz ! j \<longrightarrow> ps ! j \<noteq> None)"
    and disj0: "\<forall>i < length sz. \<forall>j < length sz. i \<noteq> j
                 \<longrightarrow> members (ps ! i) \<inter> members (ps ! j) = {}"
    and un: "(\<Union>j < length sz. members (ps ! j)) = set twins"
    unfolding placed_def by simp_all
  note inv = inv0 [rule_format]
  have le: "card (members (ps ! j)) \<le> unat (sz ! j)" if "j < length sz" for j
    using inv [OF that] by simp
  have some: "ps ! j \<noteq> None" if "j < length sz" "card (members (ps ! j)) < unat (sz ! j)" for j
  proof -
    have "0 < unat (sz ! j)" using that(2) by simp
    then have "0 < sz ! j" by (simp add: word_less_nat_alt)
    then show ?thesis using inv [OF that(1)] by simp
  qed
  have "card (\<Union>j \<in> {..<length sz}. members (ps ! j)) = (\<Sum>j \<in> {..<length sz}. card (members (ps ! j)))"
    by (rule card_UN_disjoint) (use inv disj0 in auto)
  then have cards: "(\<Sum>j < length sz. card (members (ps ! j))) = length twins"
    using un dt by (simp add: distinct_card)
  have "(\<Sum>j < length sz. unat (sz ! j) - card (members (ps ! j)))
        = (\<Sum>j < length sz. unat (sz ! j)) - (\<Sum>j < length sz. card (members (ps ! j)))"
    by (rule sum_subtractf_nat) (use le in simp)
  also have "\<dots> = length nodes"
    using tot cards by (simp add: totalSize_def sum_list_unat_nth)
  finally have sum: "(\<Sum>j = 0..<length sz. unat (sz ! j) - card (members (ps ! j))) = length nodes"
    by (simp add: atLeast0LessThan)
  show ?thesis
    unfolding filled_def using len inv le some disj0 un sum by simp
qed

lemma lenNodeSet_members: "lenNodeSet p = card (members p)"
  by (cases p) (simp_all add: lenNodeSet_def)

lemma buildPartitions_spec:
  assumes k: "length sz = unat k"
    and valid: "isValidTwinAssignment ta sz"
    and tw: "length twins = 2 * length ta"
    and dist: "distinct (twins @ nodes)"
    and tot: "totalSize sz = length twins + length nodes"
  shows "\<exists>ps. buildPartitions twins nodes k sz ta = Inr ps
              \<and> sizedBy sz ps \<and> partitionsRoster (twins @ nodes) ps"
proof -
  let ?ps0 = "map (\<lambda>s. if 0 < s then Some {} else None) sz"
  have init: "initPartitions sz 0 (replicate (unat k) None) = Inr ?ps0"
    using initPartitions_replicate [of sz "[]"] k by simp
  from dist have dt: "distinct twins" and dn: "distinct nodes"
    and tn: "set twins \<inter> set nodes = {}"
    by simp_all
  have "placed sz sz ?ps0 (set (take 0 twins))"
    using placed_start [of sz] by simp
  from placed_placeTwins [OF dt valid [unfolded isValidTwinAssignment_def] this]
  obtain ps1 cap' where
    place: "placeTwins twins ta 0 ?ps0 = Inr ps1"
    and pl: "placed sz cap' ps1 (set twins)"
    using tw by auto
  from fillNodes_spec [OF dn tn placed_filled [OF pl dt tot]]
  obtain ps where fill: "fillNodes nodes sz ps1 0 0 = Inr ps"
    and f: "filled (set twins) nodes sz ps (length sz) (length nodes)"
    by blast
  from f have len: "length ps = length sz"
    and full: "\<forall>j < length sz. j < length sz \<longrightarrow> card (members (ps ! j)) = unat (sz ! j)"
    and disj: "\<forall>i < length sz. \<forall>j < length sz. i \<noteq> j
                 \<longrightarrow> members (ps ! i) \<inter> members (ps ! j) = {}"
    and un: "(\<Union>j < length sz. members (ps ! j)) = set twins \<union> set (take (length nodes) nodes)"
    unfolding filled_def by simp_all
  have "buildPartitions twins nodes k sz ta = Inr ps"
    by (simp add: buildPartitions_def init place fill)
  moreover have "sizedBy sz ps"
    using len full by (simp add: sizedBy_def lenNodeSet_members)
  moreover have "partitionsRoster (twins @ nodes) ps"
    using len disj un by (simp add: partitionsRoster_def)
  ultimately show ?thesis by blast
qed

lemma totalSize_decrement:
  fixes cap :: "u8 list"
  assumes "i < length cap" and "cap ! i \<noteq> 0"
  shows "Suc (totalSize (cap[i := cap ! i - 1])) = totalSize cap"
proof -
  have pos: "0 < unat (cap ! i)" using assms(2) by (simp add: unat_gt_0)
  have "map unat (cap[i := cap ! i - 1]) = (map unat cap)[i := unat (cap ! i) - 1]"
    using assms(2) by (simp add: map_update unat_minus_one)
  then have "totalSize (cap[i := cap ! i - 1])
             = sum_list (map unat cap) + (unat (cap ! i) - 1) - map unat cap ! i"
    using assms(1) by (simp add: totalSize_def sum_list_update)
  also have "\<dots> = totalSize cap - 1"
    using assms(1) pos by (simp add: totalSize_def)
  finally have "totalSize (cap[i := cap ! i - 1]) = totalSize cap - 1" .
  moreover have "unat (cap ! i) \<le> totalSize cap"
  proof -
    have "unat (cap ! i) \<in> set (map unat cap)" using assms(1) by simp
    then show ?thesis unfolding totalSize_def by (simp add: member_le_sum_list)
  qed
  ultimately show ?thesis using pos by simp
qed

lemma isValidLoop_capacity:
  "isValidLoop ta sz cap \<Longrightarrow> length cap = length sz \<Longrightarrow> 2 * length ta \<le> totalSize cap"
proof (induction ta arbitrary: cap)
  case Nil
  show ?case by simp
next
  case (Cons ab ta)
  obtain a b where ab: "ab = (a, b)" by (cases ab)
  let ?cap1 = "cap[unat a := cap ! unat a - 1]"
  let ?cap2 = "?cap1[unat b := ?cap1 ! unat b - 1]"
  from Cons.prems(1) have a: "unat a < length sz" "cap ! unat a \<noteq> 0"
    and b: "unat b < length sz" "?cap1 ! unat b \<noteq> 0"
    and rest: "isValidLoop ta sz ?cap2"
    by (auto simp: ab Let_def split: if_splits)
  have "Suc (totalSize ?cap1) = totalSize cap"
    using a Cons.prems(2) by (intro totalSize_decrement) simp_all
  moreover have "Suc (totalSize ?cap2) = totalSize ?cap1"
    using b Cons.prems(2) by (intro totalSize_decrement) simp_all
  moreover have "2 * length ta \<le> totalSize ?cap2"
    using rest Cons.prems(2) by (intro Cons.IH) simp_all
  ultimately show ?case by simp
qed

lemma cartesianProduct_replicate_length:
  "ta \<in> set (cartesianProduct (replicate t xs)) \<Longrightarrow> length ta = t"
  by (induction t arbitrary: ta) (auto simp: Let_def)

lemma scenariosOfSize_spec:
  assumes "\<And>ta. ta \<in> set tas \<Longrightarrow> isValidTwinAssignment ta sz \<Longrightarrow>
             \<exists>ps. buildPartitions twins nodes k sz ta = Inr ps \<and> Q ps"
  shows "\<exists>r. scenariosOfSize twins nodes k sz tas = Inr r \<and> (\<forall>ps \<in> set r. Q ps)"
  using assms
proof (induction tas)
  case Nil
  show ?case by simp
next
  case (Cons ta tas)
  from Cons.IH Cons.prems obtain r where
    r: "scenariosOfSize twins nodes k sz tas = Inr r" "\<forall>ps \<in> set r. Q ps"
    by auto
  show ?case
  proof (cases "isValidTwinAssignment ta sz")
    case True
    with Cons.prems [of ta] obtain ps where "buildPartitions twins nodes k sz ta = Inr ps" "Q ps"
      by auto
    then show ?thesis using True r by simp
  next
    case False
    then show ?thesis using r by simp
  qed
qed

lemma scenariosOfSizes_spec:
  assumes "\<And>sz ta. sz \<in> set sizes \<Longrightarrow> ta \<in> set tas \<Longrightarrow> isValidTwinAssignment ta sz \<Longrightarrow>
             \<exists>ps. buildPartitions twins nodes k sz ta = Inr ps \<and> Q sz ps"
  shows "\<exists>r. scenariosOfSizes twins nodes k sizes tas = Inr r
              \<and> (\<forall>ps \<in> set r. \<exists>sz \<in> set sizes. Q sz ps)"
  using assms
proof (induction sizes)
  case Nil
  show ?case by simp
next
  case (Cons sz sizes)
  from Cons.IH Cons.prems obtain r2 where
    r2: "scenariosOfSizes twins nodes k sizes tas = Inr r2" "\<forall>ps \<in> set r2. \<exists>sz \<in> set sizes. Q sz ps"
    by auto
  have "\<exists>r. scenariosOfSize twins nodes k sz tas = Inr r \<and> (\<forall>ps \<in> set r. Q sz ps)"
    by (rule scenariosOfSize_spec) (use Cons.prems in simp)
  then obtain r1 where
    r1: "scenariosOfSize twins nodes k sz tas = Inr r1" "\<forall>ps \<in> set r1. Q sz ps"
    by blast
  show ?case using r1 r2 by auto
qed

lemma twinAssignmentsOf_length:
  "ta \<in> set (twinAssignmentsOf twins k) \<Longrightarrow> length ta = length twins div 2"
  by (auto simp: twinAssignmentsOf_def cartesianProduct_replicate_length split: if_splits)

lemma scenariosOfSize_built:
  "scenariosOfSize twins nodes k sz tas = Inr r \<Longrightarrow> ps \<in> set r \<Longrightarrow>
   \<exists>ta \<in> set tas. isValidTwinAssignment ta sz \<and> buildPartitions twins nodes k sz ta = Inr ps"
  by (induction tas arbitrary: r) (auto split: if_splits sum.splits)

lemma scenariosOfSizes_built:
  "scenariosOfSizes twins nodes k sizes tas = Inr r \<Longrightarrow> ps \<in> set r \<Longrightarrow>
   \<exists>sz \<in> set sizes. \<exists>ta \<in> set tas.
      isValidTwinAssignment ta sz \<and> buildPartitions twins nodes k sz ta = Inr ps"
proof (induction sizes arbitrary: r)
  case Nil
  then show ?case by simp
next
  case (Cons sz sizes)
  from Cons.prems(1) obtain r1 r2 where
    r1: "scenariosOfSize twins nodes k sz tas = Inr r1"
    and r2: "scenariosOfSizes twins nodes k sizes tas = Inr r2" and r: "r = r1 @ r2"
    by (auto split: sum.splits)
  from Cons.prems(2) r consider "ps \<in> set r1" | "ps \<in> set r2" by auto
  then show ?case
  proof cases
    case 1
    from scenariosOfSize_built [OF r1 1] show ?thesis by auto
  next
    case 2
    from Cons.IH [OF r2 2] show ?thesis by auto
  qed
qed

lemma genPartitionScenarios_legal:
  assumes k: "1 \<le> k" and t: "1 \<le> t" "t \<le> c" and c: "c < 256"
  shows "\<exists>pss sizes. genPartitionScenarios (rosterTwins t) (rosterNodes t c) k 1 = Inr pss
           \<and> genPartitionSizes (of_nat (c + t)) k 1 = Inr sizes
           \<and> (\<forall>sz \<in> set sizes. \<forall>ta \<in> set (twinAssignmentsOf (rosterTwins t) k).
                  isValidTwinAssignment ta sz \<longrightarrow>
                  (\<exists>ps. buildPartitions (rosterTwins t) (rosterNodes t c) k sz ta = Inr ps
                      \<and> sizedBy sz ps \<and> partitionsRoster (rosterTwins t @ rosterNodes t c) ps))
           \<and> (\<forall>ps \<in> set pss. \<exists>sz \<in> set sizes. \<exists>ta \<in> set (twinAssignmentsOf (rosterTwins t) k).
                  isValidTwinAssignment ta sz
                  \<and> buildPartitions (rosterTwins t) (rosterNodes t c) k sz ta = Inr ps)"
proof -
  let ?twins = "rosterTwins t" and ?nodes = "rosterNodes t c"
  have len: "length ?twins + length ?nodes = c + t"
    using t by (simp add: roster_lengths)
  have T: "1 \<le> c + t" "c + t \<le> 510" using t c by simp_all
  from genPartitionSizes_total [OF k T] obtain sizes where
    sizes: "genPartitionSizes (of_nat (c + t)) k 1 = Inr sizes"
    and sz: "\<forall>s \<in> set sizes. length s = unat k \<and> (totalSize s = c + t \<or> totalSize s + 256 = c + t)"
    by blast
  have build: "\<exists>ps. buildPartitions ?twins ?nodes k sz ta = Inr ps
                 \<and> (sizedBy sz ps \<and> partitionsRoster (?twins @ ?nodes) ps)"
    if "sz \<in> set sizes" "ta \<in> set (twinAssignmentsOf ?twins k)" "isValidTwinAssignment ta sz"
    for sz ta
  proof (rule buildPartitions_spec)
    show "length sz = unat k" using sz that(1) by blast
    show "isValidTwinAssignment ta sz" by (rule that(3))
    have lta: "length ta = t"
      using twinAssignmentsOf_length [OF that(2)] by (simp add: roster_lengths)
    then show "length ?twins = 2 * length ta" by (simp add: roster_lengths)
    show "distinct (?twins @ ?nodes)" using t(2) c by (rule roster_distinct)
    have "2 * length ta \<le> totalSize sz"
      using that(3) unfolding isValidTwinAssignment_def by (rule isValidLoop_capacity) simp
    moreover have "totalSize sz = c + t \<or> totalSize sz + 256 = c + t"
      using sz that(1) by blast
    ultimately have "totalSize sz = c + t" using lta c by auto
    then show "totalSize sz = length ?twins + length ?nodes" using len by simp
  qed
  have "\<exists>r. scenariosOfSizes ?twins ?nodes k sizes (twinAssignmentsOf ?twins k) = Inr r
          \<and> (\<forall>ps \<in> set r. \<exists>sz \<in> set sizes. sizedBy sz ps \<and> partitionsRoster (?twins @ ?nodes) ps)"
    by (rule scenariosOfSizes_spec) (rule build)
  then obtain pss where
    run: "scenariosOfSizes ?twins ?nodes k sizes (twinAssignmentsOf ?twins k) = Inr pss"
    by blast
  then have gen: "genPartitionScenarios ?twins ?nodes k 1 = Inr pss"
    using sizes len by (simp add: genPartitionScenarios_def Let_def)
  have built: "\<forall>ps \<in> set pss. \<exists>sz \<in> set sizes. \<exists>ta \<in> set (twinAssignmentsOf ?twins k).
                  isValidTwinAssignment ta sz \<and> buildPartitions ?twins ?nodes k sz ta = Inr ps"
    using scenariosOfSizes_built [OF run] by blast
  from gen sizes build built show ?thesis by blast
qed

lemma NewGenerator_legal:
  assumes k: "1 \<le> k" and t: "1 \<le> numTwins" "numTwins \<le> replicas"
  shows "\<exists>g twins nodes ids sizes.
           assignIDs (unat replicas) 1 1 numTwins [] [] [] = (twins, nodes, ids)
           \<and> NewGenerator replicas numTwins k r = Inr g
           \<and> allNodes g = twins @ nodes
           \<and> length (indices g) = unat (rounds g)
           \<and> genPartitionSizes (of_nat (length (allNodes g))) k 1 = Inr sizes
           \<and> (\<forall>sz \<in> set sizes. \<forall>ta \<in> set (twinAssignmentsOf twins k).
                  isValidTwinAssignment ta sz \<longrightarrow>
                  (\<exists>ps. buildPartitions twins nodes k sz ta = Inr ps
                      \<and> sizedBy sz ps \<and> partitionsRoster (allNodes g) ps))
           \<and> (\<forall>v \<in> set (leadersPartitions g).
                  \<exists>sz \<in> set sizes. \<exists>ta \<in> set (twinAssignmentsOf twins k).
                    isValidTwinAssignment ta sz
                    \<and> buildPartitions twins nodes k sz ta = Inr (PartitionScenario v))"
proof -
  let ?t = "unat numTwins" and ?c = "unat replicas"
  let ?twins = "rosterTwins ?t" and ?nodes = "rosterNodes ?t ?c"
  let ?ids = "map (\<lambda>j. 1 + of_nat j) [0..<?c] :: u32 list"
  have le: "?t \<le> ?c" using t(2) by (simp add: word_le_nat_alt)
  have t1: "1 \<le> ?t" using t(1) by (simp add: word_le_nat_alt)
  have c: "?c < 256" using unsigned_less [of replicas, where 'a = nat] by simp
  from genPartitionScenarios_legal [OF k t1 le c] obtain pss sizes where
    pss: "genPartitionScenarios ?twins ?nodes k 1 = Inr pss"
    and sizes: "genPartitionSizes (of_nat (?c + ?t)) k 1 = Inr sizes"
    and build: "\<forall>sz \<in> set sizes. \<forall>ta \<in> set (twinAssignmentsOf ?twins k).
                  isValidTwinAssignment ta sz \<longrightarrow>
                  (\<exists>ps. buildPartitions ?twins ?nodes k sz ta = Inr ps
                      \<and> sizedBy sz ps \<and> partitionsRoster (?twins @ ?nodes) ps)"
    and built: "\<forall>ps \<in> set pss. \<exists>sz \<in> set sizes. \<exists>ta \<in> set (twinAssignmentsOf ?twins k).
                  isValidTwinAssignment ta sz \<and> buildPartitions ?twins ?nodes k sz ta = Inr ps"
    by blast
  define g where "g = \<lparr>allNodes = ?twins @ ?nodes,
                    rounds = r, partitions = k,
                    indices = replicate (unat r) 0, offsets = replicate (unat r) 0,
                    leadersPartitions =
                      concat (map (\<lambda>p. map (\<lambda>id. \<lparr>Leader = id, PartitionScenario = p\<rparr>) ?ids)
                                pss)\<rparr>"
  have ids: "assignIDs ?c 1 1 numTwins [] [] [] = (?twins, ?nodes, ?ids)"
    by (rule assignIDs_roster [OF le])
  have new: "NewGenerator replicas numTwins k r = Inr g"
    by (simp add: NewGenerator_def ids pss g_def)
  have all: "allNodes g = ?twins @ ?nodes" by (simp add: g_def)
  have len: "length (allNodes g) = ?c + ?t"
    using le by (simp add: g_def roster_lengths)
  have idx: "length (indices g) = unat (rounds g)" by (simp add: g_def)
  have "PartitionScenario v \<in> set pss" if "v \<in> set (leadersPartitions g)" for v
    using that by (auto simp: g_def)
  with built have lp: "\<forall>v \<in> set (leadersPartitions g).
                  \<exists>sz \<in> set sizes. \<exists>ta \<in> set (twinAssignmentsOf ?twins k).
                    isValidTwinAssignment ta sz
                    \<and> buildPartitions ?twins ?nodes k sz ta = Inr (PartitionScenario v)"
    by blast
  from sizes len have sizes': "genPartitionSizes (of_nat (length (allNodes g))) k 1 = Inr sizes"
    by simp
  from build all have build':
    "\<forall>sz \<in> set sizes. \<forall>ta \<in> set (twinAssignmentsOf ?twins k).
                  isValidTwinAssignment ta sz \<longrightarrow>
                  (\<exists>ps. buildPartitions ?twins ?nodes k sz ta = Inr ps
                      \<and> sizedBy sz ps \<and> partitionsRoster (allNodes g) ps)"
    by simp
  show ?thesis
    apply (rule exI [of _ g], rule exI [of _ ?twins], rule exI [of _ ?nodes],
           rule exI [of _ ?ids], rule exI [of _ sizes])
    using ids new all idx sizes' build' lp by (intro conjI)
qed

lemma collectViews_spec:
  "collectViews g i idxs p = Inr p' \<Longrightarrow>
   length p' = length p
   \<and> (\<forall>j < length p. (i \<le> j \<and> j < i + length idxs \<longrightarrow> p' ! j \<in> set (leadersPartitions g))
                        \<and> (j < i \<or> i + length idxs \<le> j \<longrightarrow> p' ! j = p ! j))"
proof (induction idxs arbitrary: i p)
  case Nil
  then show ?case by auto
next
  case (Cons ii idxs)
  let ?L = "length (leadersPartitions g)"
  define index where "index = (if ?L \<le> ii + offsets g ! i then ii + offsets g ! i - ?L
                               else ii + offsets g ! i)"
  from Cons.prems have ok: "index < ?L" "i < length p"
    and rec: "collectViews g (i + 1) idxs (p[i := leadersPartitions g ! index]) = Inr p'"
    by (auto simp: Let_def index_def split: if_splits)
  note ih = Cons.IH [OF rec]
  have len: "length p' = length p" using ih by simp
  have inl: "p' ! j \<in> set (leadersPartitions g)"
    if "j < length p" "i + 1 \<le> j" "j < i + 1 + length idxs" for j
    using ih that by auto
  have keep: "p' ! j = (p[i := leadersPartitions g ! index]) ! j"
    if "j < length p" "j < i + 1 \<or> i + 1 + length idxs \<le> j" for j
    using ih that by auto
  have "p' ! j \<in> set (leadersPartitions g)"
    if "j < length p" "i \<le> j" "j < i + length (ii # idxs)" for j
  proof (cases "j = i")
    case True
    then have "p' ! j = leadersPartitions g ! index" using keep [of j] that(1) by simp
    then show ?thesis using ok(1) by simp
  next
    case False
    then show ?thesis using inl [of j] that by simp
  qed
  moreover have "p' ! j = p ! j" if "j < length p" "j < i \<or> i + length (ii # idxs) \<le> j" for j
    using keep [of j] that by auto
  ultimately show ?case using len by blast
qed

lemma advance_length:
  "advance len idx c = Inr (idx', True) \<Longrightarrow> length idx' = length idx"
  by (induction c arbitrary: idx) (auto simp: Let_def split: if_splits)

lemma NextScenario_emits:
  assumes "NextScenario g = Inr (s, True, g')" and "length (indices g) = unat (rounds g)"
  shows "Nodes s = allNodes g \<and> set (Views s) \<subseteq> set (leadersPartitions g)
         \<and> allNodes g' = allNodes g \<and> leadersPartitions g' = leadersPartitions g
         \<and> length (indices g') = unat (rounds g')"
proof -
  from assms(1) obtain p idx where
    p: "collectViews g 0 (indices g) (replicate (unat (rounds g)) zeroView) = Inr p"
    and adv: "advance (length (leadersPartitions g)) (indices g) (unat (rounds g)) = Inr (idx, True)"
    and s: "s = \<lparr>Nodes = allNodes g, Views = p\<rparr>" and g': "g' = g\<lparr>indices := idx\<rparr>"
    by (auto simp: NextScenario_def split: sum.splits if_splits)
  from collectViews_spec [OF p] assms(2) have
    "length p = unat (rounds g)" "\<forall>j < length p. p ! j \<in> set (leadersPartitions g)"
    by simp_all
  then have "set p \<subseteq> set (leadersPartitions g)"
    by (auto simp: in_set_conv_nth)
  moreover have "length idx = length (indices g)" using adv by (rule advance_length)
  ultimately show ?thesis using s g' assms(2) by simp
qed

lemma drain_emits:
  "drain fuel g = Some (Inr ss) \<Longrightarrow> length (indices g) = unat (rounds g) \<Longrightarrow>
   \<forall>s \<in> set ss. Nodes s = allNodes g \<and> set (Views s) \<subseteq> set (leadersPartitions g)"
proof (induction fuel arbitrary: g ss)
  case 0
  then show ?case by simp
next
  case (Suc fuel)
  show ?case
  proof (cases "NextScenario g")
    case (Inl e)
    then show ?thesis using Suc.prems(1) by simp
  next
    case (Inr res)
    obtain s ok g' where res: "res = (s, ok, g')" by (cases res)
    show ?thesis
    proof (cases ok)
      case False
      then show ?thesis using Suc.prems(1) Inr res by simp
    next
      case True
      with Suc.prems(1) Inr res obtain ss' where
        ss': "drain fuel g' = Some (Inr ss')" and ss: "ss = s # ss'"
        by (auto split: option.splits sum.splits)
      from NextScenario_emits [OF _ Suc.prems(2)] Inr res True have
        e: "Nodes s = allNodes g" "set (Views s) \<subseteq> set (leadersPartitions g)"
        "allNodes g' = allNodes g" "leadersPartitions g' = leadersPartitions g"
        "length (indices g') = unat (rounds g')"
        by simp_all
      from Suc.IH [OF ss' e(5)] e ss show ?thesis by simp
    qed
  qed
qed

lemma drain_gen2121: "drain 6 gen2121 = Some (Inr emitted2121)"
  by code_simp

text \<open>
  C7. For every legal construction (\<open>1 \<le> numTwins \<le> replicas\<close>, \<open>partitions \<ge> 1\<close>)
  \<open>NewGenerator\<close> returns a generator. With \<open>twins\<close> and \<open>nodes\<close> the lists that it hands
  to \<open>genPartitionScenarios\<close>, every size vector \<open>sz\<close> of \<open>genPartitionSizes\<close> and every
  twin assignment that \<open>isValidTwinAssignment\<close> accepts for \<open>sz\<close> are built into a
  partition scenario that has \<open>sz[i]\<close> members in partition \<open>i\<close>, pairwise disjoint
  partitions, and the roster as their union. The partition scenario of every view of
  \<open>LP\<close> is one of these, built from some \<open>sz\<close> and sized by that \<open>sz\<close>. The views of
  every scenario that draining the generator emits are views of \<open>LP\<close>, so their NodeSets
  partition the scenario's nodes.
\<close>

theorem partition_scenarios_cover_roster:
  assumes "1 \<le> numTwins" and "numTwins \<le> replicas" and "1 \<le> k"
  shows "\<exists>g twins nodes ids sizes.
           assignIDs (unat replicas) 1 1 numTwins [] [] [] = (twins, nodes, ids)
           \<and> NewGenerator replicas numTwins k r = Inr g
           \<and> allNodes g = twins @ nodes
           \<and> genPartitionSizes (of_nat (length (allNodes g))) k 1 = Inr sizes
           \<and> (\<forall>sz \<in> set sizes. \<forall>ta \<in> set (twinAssignmentsOf twins k).
                  isValidTwinAssignment ta sz \<longrightarrow>
                  (\<exists>ps. buildPartitions twins nodes k sz ta = Inr ps
                      \<and> sizedBy sz ps \<and> partitionsRoster (allNodes g) ps))
           \<and> (\<forall>v \<in> set (leadersPartitions g).
                  \<exists>sz \<in> set sizes. \<exists>ta \<in> set (twinAssignmentsOf twins k).
                    isValidTwinAssignment ta sz
                    \<and> buildPartitions twins nodes k sz ta = Inr (PartitionScenario v)
                    \<and> sizedBy sz (PartitionScenario v)
                    \<and> partitionsRoster (allNodes g) (PartitionScenario v))
           \<and> (\<forall>fuel ss. drain fuel g = Some (Inr ss) \<longrightarrow>
                  (\<forall>s \<in> set ss. Nodes s = allNodes g
                      \<and> (\<forall>v \<in> set (Views s). partitionsRoster (Nodes s) (PartitionScenario v))))"
proof -
  from NewGenerator_legal [OF assms(3) assms(1) assms(2), of r] obtain g twins nodes ids sizes where
    ids: "assignIDs (unat replicas) 1 1 numTwins [] [] [] = (twins, nodes, ids)"
    and g: "NewGenerator replicas numTwins k r = Inr g"
    and all: "allNodes g = twins @ nodes"
    and idx: "length (indices g) = unat (rounds g)"
    and sizes: "genPartitionSizes (of_nat (length (allNodes g))) k 1 = Inr sizes"
    and build: "\<forall>sz \<in> set sizes. \<forall>ta \<in> set (twinAssignmentsOf twins k).
                  isValidTwinAssignment ta sz \<longrightarrow>
                  (\<exists>ps. buildPartitions twins nodes k sz ta = Inr ps
                      \<and> sizedBy sz ps \<and> partitionsRoster (allNodes g) ps)"
    and built: "\<forall>v \<in> set (leadersPartitions g).
                  \<exists>sz \<in> set sizes. \<exists>ta \<in> set (twinAssignmentsOf twins k).
                    isValidTwinAssignment ta sz
                    \<and> buildPartitions twins nodes k sz ta = Inr (PartitionScenario v)"
    by blast
  have lp: "\<exists>sz \<in> set sizes. \<exists>ta \<in> set (twinAssignmentsOf twins k).
                    isValidTwinAssignment ta sz
                    \<and> buildPartitions twins nodes k sz ta = Inr (PartitionScenario v)
                    \<and> sizedBy sz (PartitionScenario v)
                    \<and> partitionsRoster (allNodes g) (PartitionScenario v)"
    if v: "v \<in> set (leadersPartitions g)" for v
  proof -
    from built v obtain sz ta where
      m: "sz \<in> set sizes" "ta \<in> set (twinAssignmentsOf twins k)" "isValidTwinAssignment ta sz"
      and b: "buildPartitions twins nodes k sz ta = Inr (PartitionScenario v)"
      by blast
    from build m b have "sizedBy sz (PartitionScenario v)
        \<and> partitionsRoster (allNodes g) (PartitionScenario v)"
      by fastforce
    with m b show ?thesis by blast
  qed
  have em: "Nodes s = allNodes g
          \<and> (\<forall>v \<in> set (Views s). partitionsRoster (Nodes s) (PartitionScenario v))"
    if "drain fuel g = Some (Inr ss)" "s \<in> set ss" for fuel ss s
  proof -
    from drain_emits [OF that(1) idx] that(2) have
      "Nodes s = allNodes g" "set (Views s) \<subseteq> set (leadersPartitions g)"
      by simp_all
    then show ?thesis using lp by auto
  qed
  show ?thesis
    apply (rule exI [of _ g], rule exI [of _ twins], rule exI [of _ nodes],
           rule exI [of _ ids], rule exI [of _ sizes])
    using ids g all sizes build lp em by (intro conjI ballI allI impI) blast+
qed


theorem partition_scenarios_cover_roster_witness:
  "(1 :: u8) \<le> 1 \<and> (1 :: u8) \<le> 2
   \<and> assignIDs (unat (2 :: u8)) 1 1 1 [] [] [] = (take 2 nodes2112, drop 2 nodes2112, [1, 2])
   \<and> NewGenerator 2 1 2 1 = Inr gen2121
   \<and> genPartitionSizes (of_nat (length (allNodes gen2121))) 2 1 = Inr [[3, 0], [2, 1]]
   \<and> isValidTwinAssignment [(0, 1)] [2, 1]
   \<and> buildPartitions (take 2 nodes2112) (drop 2 nodes2112) 2 [2, 1] [(0, 1)]
        = Inr (scenarios2121 ! 2)
   \<and> sizedBy [2, 1] (scenarios2121 ! 2)
   \<and> partitionsRoster (allNodes gen2121) (scenarios2121 ! 2)
   \<and> PartitionScenario (leadersPartitions gen2121 ! 4) = scenarios2121 ! 2
   \<and> drain 6 gen2121 = Some (Inr emitted2121)
   \<and> Nodes (emitted2121 ! 4) = allNodes gen2121
   \<and> partitionsRoster (Nodes (emitted2121 ! 4)) (PartitionScenario (Views (emitted2121 ! 4) ! 0))"
proof -
  have h: "(1 :: u8) \<le> 1" "(1 :: u8) \<le> 2" by simp_all
  have ev_ids: "assignIDs (unat (2 :: u8)) 1 1 1 [] [] []
                  = (take 2 nodes2112, drop 2 nodes2112, [1, 2])"
    by code_simp
  have ev_sizes: "genPartitionSizes (of_nat (length (allNodes gen2121))) 2 1 = Inr [[3, 0], [2, 1]]"
    by code_simp
  have ev_ta: "[(0, 1)] \<in> set (twinAssignmentsOf (take 2 nodes2112) 2)"
    by code_simp
  have ev_valid: "isValidTwinAssignment [(0, 1)] [2, 1]"
    by code_simp
  have ev_build: "buildPartitions (take 2 nodes2112) (drop 2 nodes2112) 2 [2, 1] [(0, 1)]
                    = Inr (scenarios2121 ! 2)"
    by code_simp
  have ev_view: "PartitionScenario (leadersPartitions gen2121 ! 4) = scenarios2121 ! 2"
    by code_simp
  have s: "emitted2121 ! 4 \<in> set emitted2121"
    "Views (emitted2121 ! 4) ! 0 \<in> set (Views (emitted2121 ! 4))"
    by code_simp+
  from partition_scenarios_cover_roster [OF h(1) h(2) h(2), of 1]
  obtain g twins nodes ids sizes where
    ids: "assignIDs (unat (2 :: u8)) 1 1 1 [] [] [] = (twins, nodes, ids)"
    and g: "NewGenerator 2 1 2 1 = Inr g"
    and sizes: "genPartitionSizes (of_nat (length (allNodes g))) 2 1 = Inr sizes"
    and build: "\<forall>sz \<in> set sizes. \<forall>ta \<in> set (twinAssignmentsOf twins 2).
                  isValidTwinAssignment ta sz \<longrightarrow>
                  (\<exists>ps. buildPartitions twins nodes 2 sz ta = Inr ps
                      \<and> sizedBy sz ps \<and> partitionsRoster (allNodes g) ps)"
    and dr: "\<forall>fuel ss. drain fuel g = Some (Inr ss) \<longrightarrow>
                  (\<forall>s \<in> set ss. Nodes s = allNodes g
                      \<and> (\<forall>v \<in> set (Views s). partitionsRoster (Nodes s) (PartitionScenario v)))"
    by blast
  from g have gg: "g = gen2121" by (simp add: NewGenerator_2_1_2_1)
  from ids ev_ids have tn: "twins = take 2 nodes2112" "nodes = drop 2 nodes2112" by simp_all
  from sizes ev_sizes have sz: "sizes = [[3, 0], [2, 1]]" by (simp add: gg)
  have "[2, 1] \<in> set sizes" by (simp add: sz)
  with build ev_ta ev_valid obtain ps where
    "buildPartitions (take 2 nodes2112) (drop 2 nodes2112) 2 [2, 1] [(0, 1)] = Inr ps"
    "sizedBy [2, 1] ps" "partitionsRoster (allNodes gen2121) ps"
    unfolding tn gg by blast
  with ev_build have a: "sizedBy [2, 1] (scenarios2121 ! 2)"
    "partitionsRoster (allNodes gen2121) (scenarios2121 ! 2)"
    by simp_all
  from dr drain_gen2121 s have b: "Nodes (emitted2121 ! 4) = allNodes gen2121"
    "partitionsRoster (Nodes (emitted2121 ! 4)) (PartitionScenario (Views (emitted2121 ! 4) ! 0))"
    unfolding gg by blast+
  from h ev_ids NewGenerator_2_1_2_1 ev_sizes ev_valid ev_build a ev_view drain_gen2121 b
  show ?thesis by (intro conjI)
qed

section \<open>The number of scenarios\<close>

text \<open>
  The odometer of \<open>NextScenario\<close> counts from the all-zero indices up. A call made
  when the odometer is below its last value returns \<open>ok = true\<close> and adds one; the call
  made at the last value \<open>len(leadersPartitions) ^ rounds - 1\<close> returns \<open>ok = false\<close>.
  So draining a fresh generator with \<open>rounds \<ge> 1\<close> and a non-empty \<open>leadersPartitions\<close>
  ends, after \<open>len(leadersPartitions) ^ rounds\<close> calls, with one scenario fewer than
  that: what the example of C1 shows holds for every such generator.
\<close>

lemma odometer_simps [simp]:
  "odometer L [] = 0" "odometer L (pre @ [x]) = odometer L pre * L + x"
  "odometer L [x] = x"
  by (simp_all add: odometer_def)

lemma odometer_bound:
  "\<forall>x \<in> set idx. x < L \<Longrightarrow> odometer L idx < L ^ length idx"
proof (induction idx rule: rev_induct)
  case Nil
  show ?case by simp
next
  case (snoc x idx)
  then have a: "odometer L idx + 1 \<le> L ^ length idx" and x: "x < L" by simp_all
  have "odometer L idx * L + x < (odometer L idx + 1) * L" using x by simp
  also have "\<dots> \<le> L ^ length idx * L" using a by (rule mult_le_mono1)
  finally show ?case by (simp add: mult.commute)
qed

lemma odometer_zeros: "odometer L (replicate R 0) = 0"
proof (induction R)
  case 0
  show ?case by simp
next
  case (Suc R)
  have "replicate (Suc R) (0 :: nat) = replicate R 0 @ [0]"
    by (simp add: replicate_append_same)
  then show ?case using Suc by (simp only: odometer_simps)
qed

lemma advance_spec:
  "pre \<noteq> [] \<Longrightarrow> \<forall>x \<in> set pre. x < L \<Longrightarrow>
   (odometer L pre + 1 = L ^ length pre \<longrightarrow>
      advance L (pre @ suf) (length pre) = Inr ([], False))
   \<and> (odometer L pre + 1 \<noteq> L ^ length pre \<longrightarrow>
      (\<exists>pre'. advance L (pre @ suf) (length pre) = Inr (pre' @ suf, True)
          \<and> length pre' = length pre \<and> (\<forall>x \<in> set pre'. x < L)
          \<and> odometer L pre' = odometer L pre + 1))"
proof (induction pre arbitrary: suf rule: rev_induct)
  case Nil
  then show ?case by simp
next
  case (snoc x pre)
  have x: "x < L" and digits: "\<forall>y \<in> set pre. y < L" using snoc.prems(2) by simp_all
  have bound: "odometer L pre + 1 \<le> L ^ length pre"
    using odometer_bound [OF digits] by simp
  have upd: "(pre @ x # suf)[length pre := v] = pre @ v # suf" for v
    by simp
  have nth: "(pre @ x # suf) ! length pre = x" by simp
  show ?case
  proof (cases "x + 1 < L")
    case True
    have "odometer L pre * L + x + 1 < (odometer L pre + 1) * L" using True by simp
    also have "\<dots> \<le> L ^ length pre * L" using bound by (rule mult_le_mono1)
    finally have ne: "odometer L (pre @ [x]) + 1 \<noteq> L ^ length (pre @ [x])"
      by (simp add: mult.commute)
    have "advance L ((pre @ [x]) @ suf) (length (pre @ [x])) = Inr ((pre @ [x + 1]) @ suf, True)"
      using True by (simp add: Let_def)
    moreover have "\<forall>y \<in> set (pre @ [x + 1]). y < L" using True digits by simp
    ultimately show ?thesis using ne by (intro conjI impI exI [of _ "pre @ [x + 1]"]) simp_all
  next
    case False
    with x have xL: "x + 1 = L" by simp
    show ?thesis
    proof (cases "pre = []")
      case True
      then show ?thesis using False xL by (simp add: Let_def)
    next
      case ne: False
      have step: "advance L ((pre @ [x]) @ suf) (length (pre @ [x]))
                  = advance L (pre @ 0 # suf) (length pre)"
        using False ne by (simp add: Let_def)
      note ih = snoc.IH [OF ne digits, of "0 # suf"]
      have val: "odometer L (pre @ [x]) + 1 = (odometer L pre + 1) * L"
        using xL by simp
      show ?thesis
      proof (cases "odometer L pre + 1 = L ^ length pre")
        case True
        then have "advance L (pre @ 0 # suf) (length pre) = Inr ([], False)"
          using ih by simp
        moreover have "odometer L (pre @ [x]) + 1 = L ^ length (pre @ [x])"
        proof -
          have "(odometer L pre + 1) * L = L ^ length pre * L" by (simp only: True)
          then show ?thesis unfolding val by simp
        qed
        ultimately show ?thesis using step by simp
      next
        case False
        then obtain pre' where p: "advance L (pre @ 0 # suf) (length pre) = Inr (pre' @ 0 # suf, True)"
          "length pre' = length pre" "\<forall>y \<in> set pre'. y < L"
          "odometer L pre' = odometer L pre + 1"
          using ih by blast
        have "odometer L pre + 1 < L ^ length pre" using bound False by simp
        moreover have "0 < L" using x by simp
        ultimately have "(odometer L pre + 1) * L < L ^ length pre * L"
          by (rule mult_less_mono1)
        then have ne': "odometer L (pre @ [x]) + 1 \<noteq> L ^ length (pre @ [x])"
          unfolding val by (simp add: mult.commute)
        have "advance L ((pre @ [x]) @ suf) (length (pre @ [x])) = Inr ((pre' @ [0]) @ suf, True)"
          using step p(1) by simp
        moreover have "\<forall>y \<in> set (pre' @ [0]). y < L" using p(3) x by simp
        moreover have "odometer L (pre' @ [0]) = odometer L (pre @ [x]) + 1"
          using p(4) val by simp
        ultimately show ?thesis using ne' p(2)
          by (intro conjI impI exI [of _ "pre' @ [0]"]) simp_all
      qed
    qed
  qed
qed

lemma collectViews_total:
  "i + length idxs \<le> length p \<Longrightarrow> i + length idxs \<le> length (offsets g) \<Longrightarrow>
   \<forall>x \<in> set idxs. x < length (leadersPartitions g) \<Longrightarrow>
   \<forall>x \<in> set (offsets g). x < length (leadersPartitions g) \<Longrightarrow>
   \<exists>p'. collectViews g i idxs p = Inr p'"
proof (induction idxs arbitrary: i p)
  case Nil
  show ?case by simp
next
  case (Cons ii idxs)
  let ?L = "length (leadersPartitions g)"
  have i: "i < length (offsets g)" "i < length p" using Cons.prems(1,2) by simp_all
  have ii: "ii < ?L" using Cons.prems(3) by simp
  have off: "offsets g ! i < ?L" using Cons.prems(4) i(1) by simp
  define index where "index = (if ?L \<le> ii + offsets g ! i then ii + offsets g ! i - ?L
                               else ii + offsets g ! i)"
  have index: "index < ?L" using ii off unfolding index_def by arith
  have "\<exists>p'. collectViews g (i + 1) idxs (p[i := leadersPartitions g ! index]) = Inr p'"
    using Cons.prems by (intro Cons.IH) simp_all
  then show ?case using i index by (simp add: Let_def index_def)
qed

lemma NextScenario_step:
  assumes v: "validState g" and r: "0 < rounds g"
  shows "(odometer (length (leadersPartitions g)) (indices g) + 1
            = length (leadersPartitions g) ^ unat (rounds g) \<longrightarrow>
          (\<exists>g'. NextScenario g = Inr (zeroScenario, False, g')))
       \<and> (odometer (length (leadersPartitions g)) (indices g) + 1
            \<noteq> length (leadersPartitions g) ^ unat (rounds g) \<longrightarrow>
          (\<exists>s g'. NextScenario g = Inr (s, True, g') \<and> validState g'
              \<and> rounds g' = rounds g \<and> leadersPartitions g' = leadersPartitions g
              \<and> odometer (length (leadersPartitions g)) (indices g')
                  = odometer (length (leadersPartitions g)) (indices g) + 1))"
proof -
  let ?L = "length (leadersPartitions g)" and ?R = "unat (rounds g)"
  from v have len: "length (indices g) = ?R" "length (offsets g) = ?R"
    and digits: "\<forall>x \<in> set (indices g). x < ?L"
    and offs: "\<forall>x \<in> set (offsets g). x < ?L"
    unfolding validState_def by simp_all
  have R: "0 < ?R" using r by (simp add: word_less_nat_alt)
  then have ne: "indices g \<noteq> []" using len by auto
  have "\<exists>p. collectViews g 0 (indices g) (replicate ?R zeroView) = Inr p"
    using len digits offs by (intro collectViews_total) simp_all
  then obtain p where p: "collectViews g 0 (indices g) (replicate ?R zeroView) = Inr p"
    by blast
  note adv = advance_spec [OF ne digits, of "[]", unfolded len append_Nil2]
  show ?thesis
  proof (intro conjI impI)
    assume "odometer ?L (indices g) + 1 = ?L ^ ?R"
    then have "advance ?L (indices g) ?R = Inr ([], False)" using adv by simp
    then show "\<exists>g'. NextScenario g = Inr (zeroScenario, False, g')"
      using p by (simp add: NextScenario_def)
  next
    assume "odometer ?L (indices g) + 1 \<noteq> ?L ^ ?R"
    then obtain idx where a: "advance ?L (indices g) ?R = Inr (idx, True)"
      "length idx = ?R" "\<forall>x \<in> set idx. x < ?L"
      "odometer ?L idx = odometer ?L (indices g) + 1"
      using adv len by auto
    have "NextScenario g = Inr (\<lparr>Nodes = allNodes g, Views = p\<rparr>, True, g\<lparr>indices := idx\<rparr>)"
      using p a(1) by (simp add: NextScenario_def)
    moreover have "validState (g\<lparr>indices := idx\<rparr>)"
      using a(2,3) len offs by (simp add: validState_def)
    ultimately show "\<exists>s g'. NextScenario g = Inr (s, True, g') \<and> validState g'
              \<and> rounds g' = rounds g \<and> leadersPartitions g' = leadersPartitions g
              \<and> odometer ?L (indices g') = odometer ?L (indices g) + 1"
      using a(4) by simp
  qed
qed

lemma drain_count:
  "validState g \<Longrightarrow> 0 < rounds g \<Longrightarrow>
   length (leadersPartitions g) ^ unat (rounds g)
     \<le> fuel + odometer (length (leadersPartitions g)) (indices g) \<Longrightarrow>
   \<exists>ss. drain fuel g = Some (Inr ss)
        \<and> length ss + odometer (length (leadersPartitions g)) (indices g) + 1
            = length (leadersPartitions g) ^ unat (rounds g)"
proof (induction fuel arbitrary: g)
  case 0
  have "odometer (length (leadersPartitions g)) (indices g)
        < length (leadersPartitions g) ^ length (indices g)"
    using "0.prems"(1) by (intro odometer_bound) (simp add: validState_def)
  then show ?case using "0.prems" by (simp add: validState_def)
next
  case (Suc fuel)
  let ?L = "length (leadersPartitions g)" and ?R = "unat (rounds g)"
  note step = NextScenario_step [OF Suc.prems(1,2)]
  show ?case
  proof (cases "odometer ?L (indices g) + 1 = ?L ^ ?R")
    case True
    then obtain g' where "NextScenario g = Inr (zeroScenario, False, g')"
      using step by blast
    then show ?thesis using True by simp
  next
    case False
    then obtain s g' where n: "NextScenario g = Inr (s, True, g')" "validState g'"
      "rounds g' = rounds g" "leadersPartitions g' = leadersPartitions g"
      "odometer ?L (indices g') = odometer ?L (indices g) + 1"
      using step by blast
    have "\<exists>ss. drain fuel g' = Some (Inr ss)
        \<and> length ss + odometer (length (leadersPartitions g')) (indices g') + 1
            = length (leadersPartitions g') ^ unat (rounds g')"
      using n Suc.prems by (intro Suc.IH) simp_all
    then obtain ss where "drain fuel g' = Some (Inr ss)"
      "length ss + odometer ?L (indices g') + 1 = ?L ^ ?R"
      using n by auto
    then show ?thesis using n by simp
  qed
qed

lemma drain_fresh_generator:
  assumes "NewGenerator replicas numTwins k r = Inr g" and "0 < r"
    and "leadersPartitions g \<noteq> []"
  shows "\<exists>ss. drain (length (leadersPartitions g) ^ unat r) g = Some (Inr ss)
              \<and> length ss = length (leadersPartitions g) ^ unat r - 1"
proof -
  note f = NewGenerator_fields [OF assms(1)]
  have v: "validState g" using f assms(3) by (simp add: validState_def)
  have o: "odometer (length (leadersPartitions g)) (indices g) = 0"
    by (simp add: f odometer_zeros)
  from drain_count [OF v, of "length (leadersPartitions g) ^ unat r"] assms(2) f(1) o
  show ?thesis by auto
qed

section \<open>A generator without twins\<close>

lemma scenariosOfSizes_no_assignments:
  "scenariosOfSizes twins nodes k sizes [] = Inr []"
  by (induction sizes) simp_all

lemma genPartitionScenarios_no_twins:
  assumes "genPartitionScenarios [] nodes k minSize = Inr pss"
  shows "pss = []"
  using assms
  by (auto simp: genPartitionScenarios_def twinAssignmentsOf_def Let_def
        scenariosOfSizes_no_assignments split: sum.splits)

lemma NewGenerator_no_twins:
  assumes "NewGenerator replicas 0 k r = Inr g"
  shows "leadersPartitions g = []"
proof -
  obtain nodes rids where ids: "assignIDs (unat replicas) 1 1 0 [] [] [] = ([], nodes, rids)"
    by (simp add: assignIDs_no_twins)
  show ?thesis
    using assms genPartitionScenarios_no_twins [of nodes k 1]
    by (auto simp: NewGenerator_def ids split: sum.splits)
qed

text \<open>
  C2. Claimed: with no twins the twin-assignment enumeration is a single empty tuple,
  every size vector gives one partition scenario, and \<open>NewGenerator(3, 0, 2, 2)\<close> has
  \<open>|PS| = 2\<close>, \<open>|LP| = 6\<close> and emits 36 scenarios. In the program \<open>cartesianProduct\<close> of no
  lists is the single empty tuple, but \<open>genPartitionScenarios\<close> calls it only under
  \<open>if len(twins)/2 > 0\<close>: without twins its list of twin assignments is empty, so no
  size vector gives a partition scenario, and a generator constructed with
  \<open>numTwins = 0\<close> has an empty \<open>LP\<close>.
\<close>

theorem no_twins_empty_LP:
  "cartesianProduct ([] :: twinAssignment list list) = [[]]
   \<and> twinAssignmentsOf [] k = []
   \<and> (\<forall>pss. genPartitionScenarios [] nodes k minSize = Inr pss \<longrightarrow> pss = [])
   \<and> (\<forall>g. NewGenerator replicas 0 k r = Inr g \<longrightarrow> leadersPartitions g = [])"
  by (simp add: twinAssignmentsOf_def genPartitionScenarios_no_twins NewGenerator_no_twins)

theorem no_twins_empty_LP_witness:
  "genPartitionSizes 3 2 1 = Inr [[3, 0], [2, 1]]
   \<and> genPartitionScenarios [] (allNodes gen3022) 2 1 = Inr []
   \<and> NewGenerator 3 0 2 2 = Inr gen3022
   \<and> leadersPartitions gen3022 = []"
proof -
  have a: "genPartitionSizes 3 2 1 = Inr [[3, 0], [2, 1]]" by code_simp
  have "\<not> isl (genPartitionScenarios [] (allNodes gen3022) 2 1)" by code_simp
  then obtain pss where pss: "genPartitionScenarios [] (allNodes gen3022) 2 1 = Inr pss"
    by (cases "genPartitionScenarios [] (allNodes gen3022) 2 1") simp_all
  note t = no_twins_empty_LP [of 2 "allNodes gen3022" 1 3 2]
  from t pss have b: "genPartitionScenarios [] (allNodes gen3022) 2 1 = Inr []" by blast
  from t NewGenerator_3_0_2_2 have c: "leadersPartitions gen3022 = []" by blast
  from a b c NewGenerator_3_0_2_2 show ?thesis by simp
qed

theorem no_twins_empty_LP_counterexample:
  "genPartitionSizes 3 2 1 = Inr [[3, 0], [2, 1]]
   \<and> NewGenerator 3 0 2 2 = Inr gen3022
   \<and> length (leadersPartitions gen3022) = 0
   \<and> NextScenario gen3022 = Inl IndexOutOfRange"
  by code_simp

end
